theory Spec2Isabelle
  imports Main "HOL-Library.Sublist"
begin

section \<open>The AST model (\<^verbatim>\<open>pymola/ast.py\<close>)\<close>

subsection \<open>Exceptions\<close>

text \<open>
  Every \<^verbatim>\<open>raise\<close> and every failing built-in operation of the modelled code is a value
  of this type. \<open>KeyError None\<close> is the bare \<^verbatim>\<open>raise KeyError\<close> of
  \<^verbatim>\<open>Collection.find_class\<close>, \<open>KeyError (Some msg)\<close> the \<^verbatim>\<open>KeyError(msg)\<close> of
  \<^verbatim>\<open>Node.set_args\<close>. \<open>ClassNotFoundError\<close> is the exception class that
  \<^verbatim>\<open>ast.py\<close> declares itself; it derives from \<^verbatim>\<open>Exception\<close>, not from
  \<^verbatim>\<open>KeyError\<close>.
\<close>

datatype error =
    IndexError
  | KeyError "string option"
  | ClassNotFoundError string
  | AssertionError
  | AttributeError
  | RuntimeError
  | NotImplementedError string

subsection \<open>Component references\<close>

text \<open>
  \<^verbatim>\<open>ComponentRef\<close> has the fields \<^verbatim>\<open>name\<close>, \<^verbatim>\<open>indices\<close> and \<^verbatim>\<open>child\<close>
  (a list that nests the deeper qualification). The functions below never look inside an
  index expression, so the type of index expressions is the parameter \<open>'i\<close>.
\<close>

datatype 'i ComponentRef =
  ComponentRef (cref_name: string) (cref_indices: "'i list") (cref_child: "'i ComponentRef list")

text \<open>
  \<^verbatim>\<open>to_tuple\<close>: the name, followed by the tuple of \<^verbatim>\<open>child[0]\<close> when
  \<^verbatim>\<open>child\<close> is not empty. Indices are ignored.
\<close>

fun to_tuple :: "'i ComponentRef \<Rightarrow> string list" where
  "to_tuple (ComponentRef n i ch) =
     (case ch of [] \<Rightarrow> [n] | c # cs \<Rightarrow> n # to_tuple c)"

text \<open>
  \<^verbatim>\<open>from_tuple\<close> builds the root from \<^verbatim>\<open>components[0]\<close> and then walks a cursor
  \<^verbatim>\<open>c\<close> down the reference: each further component is appended to \<^verbatim>\<open>c.child\<close> and
  \<^verbatim>\<open>c\<close> moves to \<^verbatim>\<open>c.child[0]\<close>. The cursor is modelled by its depth below the
  root along \<^verbatim>\<open>child[0]\<close>; \<open>child_append_at d new r\<close> is \<^verbatim>\<open>c.child.append(new)\<close>
  for the node \<^verbatim>\<open>c\<close> at depth \<open>d\<close> of \<open>r\<close>. (A depth below a node without
  children does not occur: the cursor only ever moves to a node that was just appended.)
  An empty \<^verbatim>\<open>components\<close> fails at \<^verbatim>\<open>components[0]\<close>.
\<close>

fun child_append_at :: "nat \<Rightarrow> 'i ComponentRef \<Rightarrow> 'i ComponentRef \<Rightarrow> 'i ComponentRef" where
  "child_append_at 0 new (ComponentRef n i ch) = ComponentRef n i (ch @ [new])"
| "child_append_at (Suc d) new (ComponentRef n i ch) =
     (case ch of [] \<Rightarrow> ComponentRef n i ch
      | c # cs \<Rightarrow> ComponentRef n i (child_append_at d new c # cs))"

definition from_tuple_body :: "'i ComponentRef \<times> nat \<Rightarrow> string \<Rightarrow> 'i ComponentRef \<times> nat" where
  "from_tuple_body st component =
     (case st of (component_ref, c) \<Rightarrow>
        (child_append_at c (ComponentRef component [] []) component_ref, Suc c))"

definition from_tuple :: "string list \<Rightarrow> error + 'i ComponentRef" where
  "from_tuple components =
     (case components of
        [] \<Rightarrow> Inl IndexError
      | c0 # rest \<Rightarrow> Inr (fst (foldl from_tuple_body (ComponentRef c0 [] [], 0) rest)))"

text \<open>
  Python's \<^verbatim>\<open>str.split(sep)\<close> for a one-character separator and \<^verbatim>\<open>sep.join(xs)\<close>.
  Splitting the empty string gives one empty field.
\<close>

fun py_split :: "char \<Rightarrow> string \<Rightarrow> string list" where
  "py_split sep [] = [[]]"
| "py_split sep (c # cs) =
     (if c = sep then [] # py_split sep cs
      else (case py_split sep cs of [] \<Rightarrow> [[c]] | w # ws \<Rightarrow> (c # w) # ws))"

fun py_join :: "string \<Rightarrow> string list \<Rightarrow> string" where
  "py_join sep [] = []"
| "py_join sep [x] = x"
| "py_join sep (x # y # ys) = x @ sep @ py_join sep (y # ys)"

text \<open>
  \<^verbatim>\<open>from_string(s)\<close> is \<^verbatim>\<open>from_tuple(s.split('.'))\<close>, and \<^verbatim>\<open>__str__\<close> is
  \<^verbatim>\<open>".".join(self.to_tuple())\<close>.
\<close>

definition from_string :: "string \<Rightarrow> error + 'i ComponentRef" where
  "from_string s = from_tuple (py_split CHR ''.'' s)"

definition to_string :: "'i ComponentRef \<Rightarrow> string" where
  "to_string c = py_join ''.'' (to_tuple c)"

text \<open>
  \<^verbatim>\<open>concatenate(*args)\<close> on values. The source copies \<^verbatim>\<open>args[0]\<close>, walks a cursor
  \<^verbatim>\<open>n\<close> to the deepest node along \<^verbatim>\<open>child[0]\<close> and replaces that node's
  \<^verbatim>\<open>child\<close> by the one-element list holding a copy of the next argument; the cursor
  stays where it is between two arguments, and walking on from there ends at the same
  node as walking from the root. \<open>set_deepest_child a b\<close> is one round of that loop.
  With no argument, \<^verbatim>\<open>args[0]\<close> fails. The same function over an explicit store, where
  copies and mutation are visible, is \<open>concatenate_store\<close> below.
\<close>

fun set_deepest_child :: "'i ComponentRef \<Rightarrow> 'i ComponentRef \<Rightarrow> 'i ComponentRef" where
  "set_deepest_child (ComponentRef n i ch) b =
     (case ch of [] \<Rightarrow> ComponentRef n i [b]
      | c # cs \<Rightarrow> ComponentRef n i (set_deepest_child c b # cs))"

definition concatenate :: "'i ComponentRef list \<Rightarrow> error + 'i ComponentRef" where
  "concatenate args =
     (case args of [] \<Rightarrow> Inl IndexError | a # bs \<Rightarrow> Inr (foldl set_deepest_child a bs))"

subsection \<open>Node construction\<close>

text \<open>
  Every node class assigns its fields with their defaults and then calls
  \<^verbatim>\<open>Node.__init__(**kwargs)\<close>, which is \<^verbatim>\<open>set_args(**kwargs)\<close>:
  \<^verbatim>\<open>
    for key in kwargs.keys():
        if key not in self.__dict__.keys():
            raise KeyError('{:s} not valid arg'.format(key))
        self.__dict__[key] = kwargs[key]
  \<close>
  The instance dictionary is a map from field names to values, the keyword arguments are
  the list of their pairs in the order of iteration (a dictionary: no key twice). The
  result is the instance dictionary when the loop ends and the exception, if one was
  raised: the assignments made before a \<^verbatim>\<open>raise\<close> stay.
\<close>

type_synonym 'v fields = "string \<rightharpoonup> 'v"

fun set_args :: "'v fields \<Rightarrow> (string \<times> 'v) list \<Rightarrow> 'v fields \<times> error option" where
  "set_args d [] = (d, None)"
| "set_args d ((key, v) # kwargs) =
     (if d key = None then (d, Some (KeyError (Some (key @ '' not valid arg''))))
      else set_args (d(key \<mapsto> v)) kwargs)"

text \<open>
  A constructor, for the instance dictionary \<open>defaults\<close> that the class has filled
  before it calls \<^verbatim>\<open>super().__init__(**kwargs)\<close>.
\<close>

definition Node_init :: "'v fields \<Rightarrow> (string \<times> 'v) list \<Rightarrow> 'v fields \<times> error option" where
  "Node_init defaults kwargs = set_args defaults kwargs"

subsection \<open>Symbols, classes, files\<close>

text \<open>
  Of the fields of \<^verbatim>\<open>Symbol\<close> and \<^verbatim>\<open>Class\<close>, those that the modelled functions
  read or write: a symbol's \<^verbatim>\<open>name\<close>, \<^verbatim>\<open>type\<close>, \<^verbatim>\<open>prefixes\<close> and
  \<^verbatim>\<open>order\<close>; a class's \<^verbatim>\<open>name\<close>, \<^verbatim>\<open>type\<close>, \<^verbatim>\<open>symbols\<close> and
  \<^verbatim>\<open>classes\<close>. The two \<^verbatim>\<open>OrderedDict\<close>s are association lists in insertion
  order; \<^verbatim>\<open>d.values()\<close> is \<open>map snd d\<close>.
\<close>

record 'i Symbol =
  symbol_name :: string
  symbol_type :: "'i ComponentRef"
  symbol_prefixes :: "string list"
  symbol_order :: int

datatype 'i Class =
  Class (class_name: string) (class_type: string)
        (class_symbols: "(string \<times> 'i Symbol) list")
        (class_classes: "(string \<times> 'i Class) list")

record 'i File =
  file_within :: "'i ComponentRef list"
  file_classes :: "(string \<times> 'i Class) list"

subsection \<open>Collection and class lookup\<close>

text \<open>
  \<^verbatim>\<open>Collection\<close> holds the list \<^verbatim>\<open>files\<close> and the cache \<^verbatim>\<open>_class_lookup\<close>, a
  dictionary from tuples of names to classes, \<^verbatim>\<open>None\<close> until the first query.
\<close>

type_synonym 'i class_lookup = "string list \<rightharpoonup> 'i Class"

record 'i Collection =
  files :: "'i File list"
  class_lookup :: "'i class_lookup option"

text \<open>
  \<^verbatim>\<open>_build_class_lookup_for_class(c, within)\<close> stores \<^verbatim>\<open>c\<close> under its full name
  (\<^verbatim>\<open>within\<close> concatenated with the class name, or the class name alone when
  \<^verbatim>\<open>within\<close> is \<^verbatim>\<open>None\<close>) and then visits the nested classes with that full name
  as their \<^verbatim>\<open>within\<close>. The dictionary is threaded through; a later store under the
  same key replaces the earlier one.
\<close>

fun build_class_lookup_for_class ::
  "'i class_lookup \<Rightarrow> 'i Class \<Rightarrow> 'i ComponentRef option \<Rightarrow> error + 'i class_lookup" where
  "build_class_lookup_for_class lookup (Class name ty symbols classes) within =
     (case (case within of
              Some w \<Rightarrow> concatenate [w, ComponentRef name [] []]
            | None \<Rightarrow> Inr (ComponentRef name [] [])) of
        Inl e \<Rightarrow> Inl e
      | Inr full_name \<Rightarrow>
          foldl (\<lambda>acc nested_c.
                   case acc of
                     Inl e \<Rightarrow> Inl e
                   | Inr lookup' \<Rightarrow> build_class_lookup_for_class lookup' nested_c (Some full_name))
                (Inr (lookup(to_tuple full_name \<mapsto> Class name ty symbols classes)))
                (map snd classes))"

text \<open>
  \<^verbatim>\<open>_build_class_lookup\<close> starts from the empty dictionary and visits the classes of
  every file, with the file's \<^verbatim>\<open>within[0]\<close> (or \<^verbatim>\<open>None\<close>) as prefix.
\<close>

definition build_file :: "error + 'i class_lookup \<Rightarrow> 'i File \<Rightarrow> error + 'i class_lookup" where
  "build_file acc f =
     (let within = (case file_within f of [] \<Rightarrow> None | w # ws \<Rightarrow> Some w)
      in foldl (\<lambda>acc c.
                  case acc of
                    Inl e \<Rightarrow> Inl e
                  | Inr lookup \<Rightarrow> build_class_lookup_for_class lookup c within)
               acc (map snd (file_classes f)))"

definition build_class_lookup :: "'i File list \<Rightarrow> error + 'i class_lookup" where
  "build_class_lookup fs = foldl build_file (Inr Map.empty) fs"

text \<open>
  \<^verbatim>\<open>Collection.extend(other)\<close> is \<^verbatim>\<open>self.files.extend(other.files)\<close> and nothing
  else. (The name \<open>extend\<close> belongs to the record package.)
\<close>

definition extend_collection :: "'i Collection \<Rightarrow> 'i Collection \<Rightarrow> 'i Collection" where
  "extend_collection self other = self\<lparr>files := files self @ files other\<rparr>"

text \<open>
  The loop of \<^verbatim>\<open>find_class\<close>:
  \<^verbatim>\<open>
    while c is None:
        c = self._class_lookup.get(within_tuple + cref_tuple, None)
        prev_tuple = within_tuple + cref_tuple
        if within_tuple:
            within_tuple = within_tuple[:-1]
        else:
            break
  \<close>
  It returns the last values of \<^verbatim>\<open>c\<close> and \<^verbatim>\<open>prev_tuple\<close>.
\<close>

fun find_class_loop ::
  "'i class_lookup \<Rightarrow> string list \<Rightarrow> string list \<Rightarrow> 'i Class option \<times> string list" where
  "find_class_loop lookup within_tuple cref_tuple =
     (let c = lookup (within_tuple @ cref_tuple);
          prev_tuple = within_tuple @ cref_tuple
      in if within_tuple \<noteq> [] then
           (if c = None then find_class_loop lookup (butlast within_tuple) cref_tuple
            else (c, prev_tuple))
         else (c, prev_tuple))"

declare find_class_loop.simps [simp del]

text \<open>
  \<^verbatim>\<open>find_class\<close> returns the class, or the pair of the class and the reference under
  which it was found when \<^verbatim>\<open>return_ref\<close> is set.
\<close>

datatype 'i found = Found "'i Class" | FoundRef "'i Class" "'i ComponentRef"

definition builtin_names :: "string list" where
  "builtin_names = [''Real'', ''Integer'', ''String'', ''Boolean'']"

definition elementary_names :: "string list" where
  "elementary_names = [''Real'', ''Integer'', ''Boolean'', ''String'', ''Modelica'', ''SI'']"

text \<open>
  \<^verbatim>\<open>find_class(component_ref, within, check_builtin_classes, return_ref)\<close>. The result
  is the collection afterwards (the cache may have been filled) and the value returned
  or the exception raised. The steps, in the order of the source: the short cut for
  built-in names when it is asked for; the cache, built when it is \<^verbatim>\<open>None\<close>
  (\<open>ensure_class_lookup\<close>); the
  tuples of \<^verbatim>\<open>within[0]\<close> (empty when \<^verbatim>\<open>within\<close> is empty or \<^verbatim>\<open>None\<close>) and of the
  reference; the loop; and a miss reported by \<^verbatim>\<open>KeyError\<close> for an elementary name
  and by \<^verbatim>\<open>ClassNotFoundError("Could not find class {}".format(component_ref))\<close>
  otherwise.
\<close>

definition ensure_class_lookup :: "'i Collection \<Rightarrow> error + 'i class_lookup" where
  "ensure_class_lookup self =
     (case class_lookup self of
        None \<Rightarrow> build_class_lookup (files self)
      | Some lookup \<Rightarrow> Inr lookup)"

definition within_tuple_of :: "'i ComponentRef list \<Rightarrow> string list" where
  "within_tuple_of within = (case within of [] \<Rightarrow> [] | w # ws \<Rightarrow> to_tuple w)"

definition find_class ::
  "'i Collection \<Rightarrow> 'i ComponentRef \<Rightarrow> 'i ComponentRef list \<Rightarrow> bool \<Rightarrow> bool
   \<Rightarrow> 'i Collection \<times> (error + 'i found)" where
  "find_class self component_ref within check_builtin_classes return_ref =
     (if check_builtin_classes \<and> cref_name component_ref \<in> set builtin_names then
        (let cref = ComponentRef (cref_name component_ref) [] [];
             s = \<lparr>symbol_name = ''__value'', symbol_type = cref,
                  symbol_prefixes = [], symbol_order = 0\<rparr>;
             c = Class (cref_name component_ref) ''__builtin'' [(symbol_name s, s)] []
         in (self, Inr (if return_ref then FoundRef c cref else Found c)))
      else
        (case ensure_class_lookup self of
           Inl e \<Rightarrow> (self, Inl e)
         | Inr lookup \<Rightarrow>
             (let self' = self\<lparr>class_lookup := Some lookup\<rparr>;
                  within_tuple = within_tuple_of within;
                  cref_tuple = to_tuple component_ref
              in case find_class_loop lookup within_tuple cref_tuple of
                   (None, prev_tuple) \<Rightarrow>
                     (if cref_name component_ref \<in> set elementary_names
                      then (self', Inl (KeyError None))
                      else (self', Inl (ClassNotFoundError
                                          (''Could not find class '' @ to_string component_ref))))
                 | (Some c, prev_tuple) \<Rightarrow>
                     (if return_ref then
                        (case from_tuple prev_tuple of
                           Inl e \<Rightarrow> (self', Inl e)
                         | Inr r \<Rightarrow> (self', Inr (FoundRef c r)))
                      else (self', Inr (Found c))))))"

text \<open>The class of a result, whichever form it has.\<close>

fun found_class :: "'i found \<Rightarrow> 'i Class" where
  "found_class (Found c) = c"
| "found_class (FoundRef c r) = c"

subsection \<open>The flat mapping, as the specification describes it\<close>

text \<open>
  The specification's words for the cache: a flat mapping from fully-qualified tuples of
  names to classes, obtained by walking every file's classes, recursively into the nested
  classes, prefixed by the file's \<^verbatim>\<open>within\<close> path. \<open>spec_class_entries\<close> lists
  the pairs of one class in the order of the walk, \<open>store_all\<close> stores a list of pairs
  one after the other, so that the last pair under a key stays.
\<close>

fun spec_class_entries :: "string list \<Rightarrow> 'i Class \<Rightarrow> (string list \<times> 'i Class) list" where
  "spec_class_entries scope (Class name ty symbols classes) =
     (scope @ [name], Class name ty symbols classes)
       # concat (map (spec_class_entries (scope @ [name])) (map snd classes))"

definition spec_file_entries :: "'i File \<Rightarrow> (string list \<times> 'i Class) list" where
  "spec_file_entries f =
     concat (map (spec_class_entries (within_tuple_of (file_within f))) (map snd (file_classes f)))"

definition store_all :: "'i class_lookup \<Rightarrow> (string list \<times> 'i Class) list \<Rightarrow> 'i class_lookup" where
  "store_all lookup entries = foldl (\<lambda>m (k, c). m(k \<mapsto> c)) lookup entries"

definition spec_flat_mapping :: "'i File list \<Rightarrow> 'i class_lookup" where
  "spec_flat_mapping fs = store_all Map.empty (concat (map spec_file_entries fs))"

section \<open>The symbolic generator (\<^verbatim>\<open>pymola/backends/casadi/generator.py\<close>)\<close>

subsection \<open>Values of the symbolic kernel\<close>

text \<open>
  The kernel (CasADi) is an external library. What the modelled code uses of it: a
  symbolic primitive made by \<^verbatim>\<open>MX.sym(name, rows, cols)\<close> is a new object each time
  (its identity is the number of symbols made before it), has a name and a shape, and is
  the only kind of \<^verbatim>\<open>MX\<close> for which \<^verbatim>\<open>is_symbolic()\<close> holds and \<^verbatim>\<open>name()\<close> is
  defined; every other \<^verbatim>\<open>MX\<close> is an expression node. \<^verbatim>\<open>get_mx\<close> can also
  return a value that is no \<^verbatim>\<open>MX\<close> at all (the value of a \<^verbatim>\<open>Primary\<close>, a list,
  a \<^verbatim>\<open>DM\<close> constant): their type is the parameter \<open>'o\<close>.
\<close>

datatype mx =
    MXSym (mx_id: nat) (mx_name: string) (mx_rows: nat) (mx_cols: nat)
  | MXExpr string "mx list"

datatype 'o lowered = MX mx | Other 'o

subsection \<open>The model under construction\<close>

text \<open>
  Modelled from the spec: \<^verbatim>\<open>Variable\<close>, \<^verbatim>\<open>DelayedState\<close> and \<^verbatim>\<open>Model\<close> are
  classes of \<^verbatim>\<open>pymola/backends/casadi/model.py\<close>, which is not among the sources.
  The specification gives \<^verbatim>\<open>Variable{symbol, ...}\<close>,
  \<^verbatim>\<open>DelayedState{name, origin_name, delay_time}\<close> and a \<^verbatim>\<open>Model\<close> with the lists
  \<^verbatim>\<open>inputs\<close> and \<^verbatim>\<open>delayed_states\<close> among its fields. Of a variable only the
  symbol is kept, which is all that \<^verbatim>\<open>Variable(src)\<close> sets.
\<close>

record Variable =
  variable_symbol :: mx

record 'o DelayedState =
  delayed_name :: string
  delayed_origin :: string
  delayed_time :: "'o lowered"

record 'o Model =
  inputs :: "Variable list"
  delayed_states :: "'o DelayedState list"

subsection \<open>The generator's tables\<close>

text \<open>
  The fields of \<^verbatim>\<open>Generator\<close> that the modelled code reads or writes. AST nodes are
  keys by identity; their type is the parameter \<open>'n\<close>. \<^verbatim>\<open>nodes[c]\<close> is keyed by
  names and, in the \<^verbatim>\<open>der\<close> branch, by the symbol itself. \<open>symbols_created\<close> counts
  the calls of \<^verbatim>\<open>MX.sym\<close>.
\<close>

record ('n, 'o) Generator =
  src :: "'n \<rightharpoonup> 'o lowered"
  nodes :: "'n \<rightharpoonup> (string + mx \<rightharpoonup> mx)"
  derivative :: "'o lowered \<rightharpoonup> mx"
  entered_classes :: "'n list"
  model :: "'o Model"
  symbols_created :: nat

text \<open>An \<^verbatim>\<open>Expression\<close> node: the node itself, its operator and its operand nodes.\<close>

record ('n, 'i) Expression =
  expr_node :: 'n
  expr_operator :: "string + 'i ComponentRef"
  expr_operands :: "'n list"

text \<open>
  \<^verbatim>\<open>get_mx(tree)\<close> returns \<^verbatim>\<open>self.src[tree]\<close>; when the node is not in the table
  yet it first makes the value (\<^verbatim>\<open>get_symbol\<close> for a \<^verbatim>\<open>Symbol\<close>,
  \<^verbatim>\<open>get_component\<close> for a \<^verbatim>\<open>ComponentRef\<close>, an exception for any other node) and
  stores it. Making the value needs the evaluation of dimensions by the kernel and is the
  parameter \<open>materialise\<close>.
\<close>

definition get_mx ::
  "(('n, 'o) Generator \<Rightarrow> 'n \<Rightarrow> error + ('n, 'o) Generator \<times> 'o lowered)
   \<Rightarrow> ('n, 'o) Generator \<Rightarrow> 'n \<Rightarrow> error + ('n, 'o) Generator \<times> 'o lowered" where
  "get_mx materialise g tree =
     (case src g tree of
        Some v \<Rightarrow> Inr (g, v)
      | None \<Rightarrow>
          (case materialise g tree of
             Inl e \<Rightarrow> Inl e
           | Inr (g', s) \<Rightarrow> Inr (g'\<lparr>src := (src g')(tree \<mapsto> s)\<rparr>, s)))"

text \<open>
  The head of \<^verbatim>\<open>exitExpression\<close>: the operator is the name of a component reference
  or a string; \<^verbatim>\<open>*\<close> becomes \<^verbatim>\<open>mtimes\<close>, and then a leading dot is dropped.
\<close>

definition operator_name :: "string + 'i ComponentRef \<Rightarrow> string" where
  "operator_name operator = (case operator of Inl s \<Rightarrow> s | Inr c \<Rightarrow> cref_name c)"

definition normalise_op :: "string \<Rightarrow> string" where
  "normalise_op op0 =
     (let op1 = (if op0 = ''*'' then ''mtimes'' else op0)
      in case op1 of [] \<Rightarrow> op1 | ch # rest \<Rightarrow> if ch = CHR ''.'' then rest else op1)"

text \<open>
  The \<^verbatim>\<open>der\<close> branch, for the lowered operand \<^verbatim>\<open>orig\<close>:
  \<^verbatim>\<open>
    if orig in self.derivative:
        src = self.derivative[orig]
    else:
        s = ca.MX.sym("der({})".format(orig.name()), orig.sparsity())
        self.derivative[orig] = s
        self.nodes[self.current_class][s] = s
        src = s
  \<close>
  \<^verbatim>\<open>orig.name()\<close> fails unless \<^verbatim>\<open>orig\<close> is a symbolic primitive (the kernel raises
  for an expression node; a value that is no \<^verbatim>\<open>MX\<close> has no such method, or cannot be
  a key). \<^verbatim>\<open>current_class\<close> is \<^verbatim>\<open>self.entered_classes[-1]\<close>.
\<close>

definition exitExpression_der ::
  "('n, 'o) Generator \<Rightarrow> 'o lowered \<Rightarrow> error + ('n, 'o) Generator \<times> 'o lowered" where
  "exitExpression_der g orig =
     (case derivative g orig of
        Some d \<Rightarrow> Inr (g, MX d)
      | None \<Rightarrow>
          (case orig of
             MX (MXSym i name r c) \<Rightarrow>
               (let s = MXSym (symbols_created g) (''der('' @ name @ '')'') r c;
                    g1 = g\<lparr>symbols_created := Suc (symbols_created g),
                           derivative := (derivative g)(orig \<mapsto> s)\<rparr>
                in case entered_classes g1 of
                     [] \<Rightarrow> Inl IndexError
                   | _ # _ \<Rightarrow>
                       (let current_class = last (entered_classes g1)
                        in case nodes g1 current_class of
                             None \<Rightarrow> Inl (KeyError None)
                           | Some d \<Rightarrow>
                               Inr (g1\<lparr>nodes := (nodes g1)(current_class \<mapsto> d(Inr s \<mapsto> s))\<rparr>,
                                    MX s)))
           | MX (MXExpr f xs) \<Rightarrow> Inl RuntimeError
           | Other v \<Rightarrow> Inl AttributeError))"

text \<open>
  The \<^verbatim>\<open>delay\<close> branch, for the lowered operands \<^verbatim>\<open>expr\<close> and \<^verbatim>\<open>delay_time\<close>:
  \<^verbatim>\<open>
    if not isinstance(expr, ca.MX) or not expr.is_symbolic():
        raise NotImplementedError('Currently, delay() is only supported with a variable as argument.')
    src = ca.MX.sym('{}_delayed_{}'.format(expr.name(), delay_time), *expr.size())
    delayed_state = DelayedState(src.name(), expr.name(), delay_time)
    self.model.delayed_states.append(delayed_state)
    self.model.inputs.append(Variable(src))
  \<close>
  How Python prints the delay time inside the name is the parameter \<open>fmt\<close>.
\<close>

definition exitExpression_delay ::
  "('o lowered \<Rightarrow> string) \<Rightarrow> ('n, 'o) Generator \<Rightarrow> 'o lowered \<Rightarrow> 'o lowered
   \<Rightarrow> error + ('n, 'o) Generator \<times> 'o lowered" where
  "exitExpression_delay fmt g expr delay_time =
     (case expr of
        MX (MXSym i name r c) \<Rightarrow>
          (let s = MXSym (symbols_created g) (name @ ''_delayed_'' @ fmt delay_time) r c;
               delayed_state = \<lparr>delayed_name = mx_name s, delayed_origin = name,
                                delayed_time = delay_time\<rparr>
           in Inr (g\<lparr>symbols_created := Suc (symbols_created g),
                      model := (model g)\<lparr>delayed_states := delayed_states (model g) @ [delayed_state],
                                          inputs := inputs (model g) @ [\<lparr>variable_symbol = s\<rparr>]\<rparr>\<rparr>,
                   MX s))
      | _ \<Rightarrow> Inl (NotImplementedError
                   ''Currently, delay() is only supported with a variable as argument.''))"

text \<open>
  \<^verbatim>\<open>exitExpression(tree)\<close>. The chain of branches starts with \<^verbatim>\<open>op == 'der'\<close>;
  the branches between it and \<^verbatim>\<open>op == 'delay' and n_operands == 2\<close> all test
  \<^verbatim>\<open>op\<close> against other names, so an expression that reaches the \<^verbatim>\<open>delay\<close> test
  here reaches it there. These branches and the ones after \<^verbatim>\<open>delay\<close> (kernel
  operations and calls of user functions) are the parameter \<open>other\<close>. The operands are
  lowered by \<^verbatim>\<open>get_mx\<close> in the order of the source, and the result is stored in
  \<^verbatim>\<open>self.src[tree]\<close>.
\<close>

definition exitExpression ::
  "(('n, 'o) Generator \<Rightarrow> 'n \<Rightarrow> error + ('n, 'o) Generator \<times> 'o lowered)
   \<Rightarrow> (('n, 'o) Generator \<Rightarrow> string \<Rightarrow> ('n, 'i) Expression \<Rightarrow> error + ('n, 'o) Generator \<times> 'o lowered)
   \<Rightarrow> ('o lowered \<Rightarrow> string)
   \<Rightarrow> ('n, 'o) Generator \<Rightarrow> ('n, 'i) Expression \<Rightarrow> error + ('n, 'o) Generator" where
  "exitExpression materialise other fmt g tree =
     (let op = normalise_op (operator_name (expr_operator tree));
          n_operands = length (expr_operands tree)
      in case (if op = ''der'' then
                 (case expr_operands tree of
                    [] \<Rightarrow> Inl IndexError
                  | t0 # ts \<Rightarrow>
                      (case get_mx materialise g t0 of
                         Inl e \<Rightarrow> Inl e
                       | Inr (g0, orig) \<Rightarrow> exitExpression_der g0 orig))
               else if op = ''delay'' \<and> n_operands = 2 then
                 (case get_mx materialise g (expr_operands tree ! 0) of
                    Inl e \<Rightarrow> Inl e
                  | Inr (g0, expr) \<Rightarrow>
                      (case get_mx materialise g0 (expr_operands tree ! 1) of
                         Inl e \<Rightarrow> Inl e
                       | Inr (g1, delay_time) \<Rightarrow> exitExpression_delay fmt g1 expr delay_time))
               else other g op tree) of
           Inl e \<Rightarrow> Inl e
         | Inr (g', v) \<Rightarrow> Inr (g'\<lparr>src := (src g')(expr_node tree \<mapsto> v)\<rparr>))"

text \<open>A sequence of calls of \<^verbatim>\<open>exitExpression\<close>, as the tree walker makes them.\<close>

fun exitExpressions ::
  "(('n, 'o) Generator \<Rightarrow> 'n \<Rightarrow> error + ('n, 'o) Generator \<times> 'o lowered)
   \<Rightarrow> (('n, 'o) Generator \<Rightarrow> string \<Rightarrow> ('n, 'i) Expression \<Rightarrow> error + ('n, 'o) Generator \<times> 'o lowered)
   \<Rightarrow> ('o lowered \<Rightarrow> string)
   \<Rightarrow> ('n, 'o) Generator \<Rightarrow> ('n, 'i) Expression list \<Rightarrow> error + ('n, 'o) Generator" where
  "exitExpressions materialise other fmt g [] = Inr g"
| "exitExpressions materialise other fmt g (tree # trees) =
     (case exitExpression materialise other fmt g tree of
        Inl e \<Rightarrow> Inl e
      | Inr g' \<Rightarrow> exitExpressions materialise other fmt g' trees)"

text \<open>
  The frame condition on the parameters: a call may add entries to
  \<^verbatim>\<open>self.derivative\<close> (lowering a dimension can walk an expression again) but never
  changes or removes one. In the source the only assignment to \<^verbatim>\<open>self.derivative\<close> is
  the one of the \<^verbatim>\<open>der\<close> branch.
\<close>

definition keeps_derivative ::
  "(('n, 'o) Generator \<Rightarrow> 'a \<Rightarrow> error + ('n, 'o) Generator \<times> 'b) \<Rightarrow> bool" where
  "keeps_derivative f \<longleftrightarrow>
     (\<forall>g a g' v. f g a = Inr (g', v) \<longrightarrow> derivative g \<subseteq>\<^sub>m derivative g')"

subsection \<open>If-equations\<close>

text \<open>
  Python's indexing of a list, where a negative index counts from the end and an index
  out of range raises \<^verbatim>\<open>IndexError\<close>; and a list comprehension whose element
  expression can raise: the first exception ends it.
\<close>

definition py_index :: "'a list \<Rightarrow> int \<Rightarrow> error + 'a" where
  "py_index xs i =
     (let n = int (length xs); j = (if i < 0 then n + i else i)
      in if 0 \<le> j \<and> j < n then Inr (xs ! nat j) else Inl IndexError)"

fun sum_map :: "('a \<Rightarrow> error + 'b) \<Rightarrow> 'a list \<Rightarrow> error + 'b list" where
  "sum_map f [] = Inr []"
| "sum_map f (x # xs) =
     (case f x of
        Inl e \<Rightarrow> Inl e
      | Inr y \<Rightarrow> (case sum_map f xs of Inl e \<Rightarrow> Inl e | Inr ys \<Rightarrow> Inr (y # ys)))"

text \<open>
  An \<^verbatim>\<open>IfEquation\<close> node: the condition nodes, and the equation nodes of all
  branches one after the other.
\<close>

record 'n IfEquation =
  conditions :: "'n list"
  equations :: "'n list"

text \<open>
  \<^verbatim>\<open>self.get_mx(xs[i])\<close>. Here \<^verbatim>\<open>get_mx\<close> is the parameter \<open>get\<close>: the value the
  generator has for a node, or the exception \<^verbatim>\<open>get_mx\<close> raises for it.
\<close>

definition lookup_at :: "('n \<Rightarrow> error + 'v) \<Rightarrow> 'n list \<Rightarrow> int \<Rightarrow> error + 'v" where
  "lookup_at get xs i = (case py_index xs i of Inl e \<Rightarrow> Inl e | Inr t \<Rightarrow> get t)"

text \<open>
  \<^verbatim>\<open>exitIfEquation(tree)\<close>:
  \<^verbatim>\<open>
    assert (len(tree.equations) % (len(tree.conditions) + 1) == 0)
    equations_per_condition = int(len(tree.equations) / (len(tree.conditions) + 1))
    src = ca.vertcat(*[self.get_mx(tree.equations[-(i + 1)])
                       for i in range(equations_per_condition)])
    for cond_index in range(len(tree.conditions)):
        cond = self.get_mx(tree.conditions[-(cond_index + 1)])
        expr1 = ca.vertcat(*[self.get_mx(tree.equations[-equations_per_condition * (
            cond_index + 1) - (i + 1)]) for i in range(equations_per_condition)])
        src = ca.if_else(cond, expr1, src)
  \<close>
  The kernel's \<^verbatim>\<open>vertcat\<close> and \<^verbatim>\<open>if_else\<close> are parameters. The result is the
  value that is stored in \<^verbatim>\<open>self.src[tree]\<close>.
\<close>

definition exitIfEquation ::
  "('v list \<Rightarrow> 'v) \<Rightarrow> ('v \<Rightarrow> 'v \<Rightarrow> 'v \<Rightarrow> 'v) \<Rightarrow> ('n \<Rightarrow> error + 'v) \<Rightarrow> 'n IfEquation \<Rightarrow> error + 'v" where
  "exitIfEquation vertcat if_else get tree =
     (if length (equations tree) mod (length (conditions tree) + 1) \<noteq> 0 then Inl AssertionError
      else
        (let equations_per_condition = length (equations tree) div (length (conditions tree) + 1)
         in case sum_map (\<lambda>i. lookup_at get (equations tree) (- (int i + 1)))
                   [0..<equations_per_condition] of
              Inl e \<Rightarrow> Inl e
            | Inr rows \<Rightarrow>
                foldl (\<lambda>acc cond_index.
                         case acc of
                           Inl e \<Rightarrow> Inl e
                         | Inr src' \<Rightarrow>
                             (case lookup_at get (conditions tree) (- (int cond_index + 1)) of
                                Inl e \<Rightarrow> Inl e
                              | Inr cond \<Rightarrow>
                                  (case sum_map
                                          (\<lambda>i. lookup_at get (equations tree)
                                                 (- int equations_per_condition * (int cond_index + 1)
                                                  - (int i + 1)))
                                          [0..<equations_per_condition] of
                                     Inl e \<Rightarrow> Inl e
                                   | Inr rows1 \<Rightarrow> Inr (if_else cond (vertcat rows1) src'))))
                      (Inr (vertcat rows))
                      [0..<length (conditions tree)]))"

text \<open>
  The rows of branch \<open>j\<close> (counted from 0; branch \<open>k\<close> is the \<^verbatim>\<open>else\<close> branch)
  when every branch has \<open>n\<close> equations: the lowered equations of that branch, last
  one first.
\<close>

definition branch_rows :: "nat \<Rightarrow> 'v list \<Rightarrow> nat \<Rightarrow> 'v list" where
  "branch_rows n rows j = rev (take n (drop (j * n) rows))"

subsection \<open>Class exit: the partition of the symbols\<close>

text \<open>
  The part of \<^verbatim>\<open>exitClass(tree)\<close> that sorts the symbols into lists:
  \<^verbatim>\<open>
    if tree.type == 'function':
        self.entered_classes.pop()
        return
    symbols = sorted(tree.symbols.values(), key=lambda x: x.order)
    for s in symbols:
        if 'constant' in s.prefixes:     constants.append(s)
        elif 'parameter' in s.prefixes:  parameters.append(s)
        elif 'input' in s.prefixes:      inputs.append(s)
        else:                            states.append(s)
    for s in states:
        if self.get_mx(s) in self.derivative:  ode_states.append(s)
        else:                                  alg_states.append(s)
  \<close>
  \<^verbatim>\<open>sorted\<close> is stable, as \<open>sort_key\<close> is. As for an if-equation, \<^verbatim>\<open>get_mx\<close> is
  the parameter \<open>get\<close>. The result is \<open>None\<close> for a function class and the six lists
  otherwise; what \<^verbatim>\<open>exitClass\<close> then does with the lists (the variables of the model,
  the equations, the check for statements) is not modelled.
\<close>

record 'i ClassPartition =
  part_states :: "'i Symbol list"
  part_inputs :: "'i Symbol list"
  part_constants :: "'i Symbol list"
  part_parameters :: "'i Symbol list"
  part_ode_states :: "'i Symbol list"
  part_alg_states :: "'i Symbol list"

definition partition_step ::
  "'i Symbol list \<times> 'i Symbol list \<times> 'i Symbol list \<times> 'i Symbol list \<Rightarrow> 'i Symbol
   \<Rightarrow> 'i Symbol list \<times> 'i Symbol list \<times> 'i Symbol list \<times> 'i Symbol list" where
  "partition_step acc s =
     (case acc of (states, inputs', constants, parameters) \<Rightarrow>
        if ''constant'' \<in> set (symbol_prefixes s) then (states, inputs', constants @ [s], parameters)
        else if ''parameter'' \<in> set (symbol_prefixes s) then (states, inputs', constants, parameters @ [s])
        else if ''input'' \<in> set (symbol_prefixes s) then (states, inputs' @ [s], constants, parameters)
        else (states @ [s], inputs', constants, parameters))"

fun split_states ::
  "('i Symbol \<Rightarrow> error + 'o lowered) \<Rightarrow> ('o lowered \<rightharpoonup> mx)
   \<Rightarrow> 'i Symbol list \<times> 'i Symbol list \<Rightarrow> 'i Symbol list
   \<Rightarrow> error + 'i Symbol list \<times> 'i Symbol list" where
  "split_states get table (ode_states, alg_states) [] = Inr (ode_states, alg_states)"
| "split_states get table (ode_states, alg_states) (s # states) =
     (case get s of
        Inl e \<Rightarrow> Inl e
      | Inr v \<Rightarrow>
          (if table v \<noteq> None then split_states get table (ode_states @ [s], alg_states) states
           else split_states get table (ode_states, alg_states @ [s]) states))"

definition exitClass_partition ::
  "('i Symbol \<Rightarrow> error + 'o lowered) \<Rightarrow> ('n, 'o) Generator \<Rightarrow> 'i Class
   \<Rightarrow> error + 'i ClassPartition option" where
  "exitClass_partition get g tree =
     (if class_type tree = ''function'' then Inr None
      else
        (let symbols = sort_key symbol_order (map snd (class_symbols tree))
         in case foldl partition_step ([], [], [], []) symbols of
              (states, inputs', constants, parameters) \<Rightarrow>
                (case split_states get (derivative g) ([], []) states of
                   Inl e \<Rightarrow> Inl e
                 | Inr (ode_states, alg_states) \<Rightarrow>
                     Inr (Some \<lparr>part_states = states, part_inputs = inputs',
                                part_constants = constants, part_parameters = parameters,
                                part_ode_states = ode_states, part_alg_states = alg_states\<rparr>))))"

text \<open>The four kinds of symbol, by the precedence of the prefixes.\<close>

definition is_constant :: "'i Symbol \<Rightarrow> bool" where
  "is_constant s \<longleftrightarrow> ''constant'' \<in> set (symbol_prefixes s)"

definition is_parameter :: "'i Symbol \<Rightarrow> bool" where
  "is_parameter s \<longleftrightarrow> ''constant'' \<notin> set (symbol_prefixes s) \<and> ''parameter'' \<in> set (symbol_prefixes s)"

definition is_input :: "'i Symbol \<Rightarrow> bool" where
  "is_input s \<longleftrightarrow> ''constant'' \<notin> set (symbol_prefixes s) \<and> ''parameter'' \<notin> set (symbol_prefixes s)
                  \<and> ''input'' \<in> set (symbol_prefixes s)"

definition is_state :: "'i Symbol \<Rightarrow> bool" where
  "is_state s \<longleftrightarrow> ''constant'' \<notin> set (symbol_prefixes s) \<and> ''parameter'' \<notin> set (symbol_prefixes s)
                  \<and> ''input'' \<notin> set (symbol_prefixes s)"

section \<open>Concatenation over an explicit store\<close>

text \<open>
  \<^verbatim>\<open>ComponentRef.concatenate\<close> copies its arguments and then assigns to the
  \<^verbatim>\<open>child\<close> field of an object. To see which objects that assignment can reach, the
  objects live in a store here: an object is its three fields, with the addresses of the
  children in \<^verbatim>\<open>child\<close>; the store is the list of all objects, an address is a
  position in it, and a new object goes to the end. Index expressions are kept as values.
\<close>

record 'i cref_obj =
  obj_name :: string
  obj_indices :: "'i list"
  obj_child :: "nat list"

type_synonym 'i store = "'i cref_obj list"

text \<open>
  \<^verbatim>\<open>copy.deepcopy\<close> is Python's library function. It keeps a memo table from the
  objects it has met to their copies. For an object that is in the table it returns the
  copy recorded there; for any other it makes a new object, records it in the table, copies
  the fields (for \<^verbatim>\<open>child\<close>, every element in turn, with the same table) and only then
  sets the fields of the new object. So an object that is reached along two paths is copied
  once, and a cyclic structure is copied as a cyclic structure. The old objects stay as they
  are. The new object has no fields until they are set; nothing reads it before. The fuel
  bounds the depth of the descent; an address outside the store does not occur in Python and
  gives \<open>None\<close> as well.
\<close>

type_synonym memo = "nat \<rightharpoonup> nat"

fun deepcopy :: "nat \<Rightarrow> 'i store \<Rightarrow> memo \<Rightarrow> nat \<Rightarrow> ('i store \<times> memo \<times> nat) option"
  and deepcopy_list :: "nat \<Rightarrow> 'i store \<Rightarrow> memo \<Rightarrow> nat list \<Rightarrow> ('i store \<times> memo \<times> nat list) option" where
  "deepcopy 0 h m x = None"
| "deepcopy (Suc fuel) h m x =
     (case m x of
        Some y \<Rightarrow> Some (h, m, y)
      | None \<Rightarrow>
          if length h \<le> x then None
          else (let y = length h;
                    blank = \<lparr>obj_name = [], obj_indices = [], obj_child = []\<rparr>
                in case deepcopy_list fuel (h @ [blank]) (m(x \<mapsto> y)) (obj_child (h ! x)) of
                     None \<Rightarrow> None
                   | Some (h', m', cs) \<Rightarrow> Some (h'[y := (h ! x)\<lparr>obj_child := cs\<rparr>], m', y)))"
| "deepcopy_list fuel h m [] = Some (h, m, [])"
| "deepcopy_list fuel h m (c # cs) =
     (case deepcopy fuel h m c of
        None \<Rightarrow> None
      | Some (h1, m1, c') \<Rightarrow>
          (case deepcopy_list fuel h1 m1 cs of
             None \<Rightarrow> None
           | Some (h2, m2, cs') \<Rightarrow> Some (h2, m2, c' # cs')))"

text \<open>
  \<^verbatim>\<open>while n.child: n = n.child[0]\<close>, from the cursor \<open>n\<close>. The loop need not end (a
  cycle along \<^verbatim>\<open>child[0]\<close>); the fuel bounds the number of objects it visits.
\<close>

fun deepest :: "nat \<Rightarrow> 'i store \<Rightarrow> nat \<Rightarrow> nat option" where
  "deepest 0 h n = None"
| "deepest (Suc fuel) h n =
     (if length h \<le> n then None
      else case obj_child (h ! n) of [] \<Rightarrow> Some n | c # cs \<Rightarrow> deepest fuel h c)"

text \<open>
  The loop over \<^verbatim>\<open>args[1:]\<close>, with the store and the cursor \<^verbatim>\<open>n\<close>:
  \<^verbatim>\<open>
    for b in args[1:]:
        while n.child:
            n = n.child[0]
        b = copy.deepcopy(b)
        n.child = [b]
  \<close>
  Every call of \<^verbatim>\<open>copy.deepcopy\<close> starts with an empty memo table.
\<close>

fun concatenate_loop :: "nat \<Rightarrow> 'i store \<Rightarrow> nat \<Rightarrow> nat list \<Rightarrow> 'i store option" where
  "concatenate_loop fuel h n [] = Some h"
| "concatenate_loop fuel h n (b # bs) =
     (case deepest fuel h n of
        None \<Rightarrow> None
      | Some n' \<Rightarrow>
          (case deepcopy fuel h Map.empty b of
             None \<Rightarrow> None
           | Some (h1, m1, b') \<Rightarrow>
               concatenate_loop fuel (h1[n' := (h1 ! n')\<lparr>obj_child := [b']\<rparr>]) n' bs))"

text \<open>
  \<^verbatim>\<open>concatenate(*args)\<close>: \<^verbatim>\<open>a = copy.deepcopy(args[0])\<close>, \<^verbatim>\<open>n = a\<close>, the loop,
  \<^verbatim>\<open>return a\<close>. The result is \<open>None\<close> when the fuel does not suffice, and otherwise
  the exception, or the store afterwards with the address of the result.
\<close>

definition concatenate_store ::
  "nat \<Rightarrow> 'i store \<Rightarrow> nat list \<Rightarrow> (error + 'i store \<times> nat) option" where
  "concatenate_store fuel h args =
     (case args of
        [] \<Rightarrow> Some (Inl IndexError)
      | a0 # bs \<Rightarrow>
          (case deepcopy fuel h Map.empty a0 of
             None \<Rightarrow> None
           | Some (h1, m1, a) \<Rightarrow>
               (case concatenate_loop fuel h1 a bs of
                  None \<Rightarrow> None
                | Some h2 \<Rightarrow> Some (Inr (h2, a)))))"

text \<open>
  The link between the store and the values of type \<open>ComponentRef\<close>: the object at
  address \<open>a\<close> denotes the reference \<open>t\<close> when it has the name and the indices of
  \<open>t\<close> and its children denote the children of \<open>t\<close>, one by one. \<open>addrs\<close> is the
  set of the objects that make up \<open>t\<close> at \<open>a\<close>, and \<open>unshared\<close> says that none of
  them occurs twice in it.
\<close>

fun denotes :: "'i store \<Rightarrow> nat \<Rightarrow> 'i ComponentRef \<Rightarrow> bool"
  and denotes_list :: "'i store \<Rightarrow> nat list \<Rightarrow> 'i ComponentRef list \<Rightarrow> bool" where
  "denotes h a (ComponentRef n i ts) =
     (a < length h \<and> obj_name (h ! a) = n \<and> obj_indices (h ! a) = i
      \<and> denotes_list h (obj_child (h ! a)) ts)"
| "denotes_list h [] [] = True"
| "denotes_list h (c # cs) (t # ts) = (denotes h c t \<and> denotes_list h cs ts)"
| "denotes_list h [] (t # ts) = False"
| "denotes_list h (c # cs) [] = False"

fun addrs :: "'i store \<Rightarrow> nat \<Rightarrow> 'i ComponentRef \<Rightarrow> nat set"
  and addrs_list :: "'i store \<Rightarrow> nat list \<Rightarrow> 'i ComponentRef list \<Rightarrow> nat set" where
  "addrs h a (ComponentRef n i ts) = insert a (addrs_list h (obj_child (h ! a)) ts)"
| "addrs_list h (c # cs) (t # ts) = addrs h c t \<union> addrs_list h cs ts"
| "addrs_list h [] ts = {}"
| "addrs_list h (c # cs) [] = {}"

fun unshared :: "'i store \<Rightarrow> nat \<Rightarrow> 'i ComponentRef \<Rightarrow> bool"
  and unshared_list :: "'i store \<Rightarrow> nat list \<Rightarrow> 'i ComponentRef list \<Rightarrow> bool" where
  "unshared h a (ComponentRef n i ts) =
     (a \<notin> addrs_list h (obj_child (h ! a)) ts \<and> unshared_list h (obj_child (h ! a)) ts)"
| "unshared_list h (c # cs) (t # ts) =
     (unshared h c t \<and> unshared_list h cs ts \<and> addrs h c t \<inter> addrs_list h cs ts = {})"
| "unshared_list h [] ts = True"
| "unshared_list h (c # cs) [] = True"

text \<open>The height of a reference, which bounds the fuel that copying it takes.\<close>

fun cref_height :: "'i ComponentRef \<Rightarrow> nat" where
  "cref_height (ComponentRef n i ts) = Suc (foldr max (map cref_height ts) 0)"

section \<open>A small collection\<close>

text \<open>
  One file without \<^verbatim>\<open>within\<close> that declares the package \<^verbatim>\<open>P\<close> with a nested
  model \<^verbatim>\<open>M\<close> and, at top level, a block \<^verbatim>\<open>M\<close>; and a second collection whose
  only file declares the model \<^verbatim>\<open>N\<close> within \<^verbatim>\<open>P\<close>.
\<close>

definition ex_M_inner :: "unit Class" where
  "ex_M_inner = Class ''M'' ''model'' [] []"

definition ex_P :: "unit Class" where
  "ex_P = Class ''P'' ''package'' [] [(''M'', ex_M_inner)]"

definition ex_M_outer :: "unit Class" where
  "ex_M_outer = Class ''M'' ''block'' [] []"

definition ex_collection :: "unit Collection" where
  "ex_collection =
     \<lparr>files = [\<lparr>file_within = [], file_classes = [(''P'', ex_P), (''M'', ex_M_outer)]\<rparr>],
      class_lookup = None\<rparr>"

definition ex_N :: "unit Class" where
  "ex_N = Class ''N'' ''model'' [] []"

definition ex_other :: "unit Collection" where
  "ex_other =
     \<lparr>files = [\<lparr>file_within = [ComponentRef ''P'' [] []], file_classes = [(''N'', ex_N)]\<rparr>],
      class_lookup = None\<rparr>"

section \<open>A small generator state\<close>

text \<open>
  One entered class (node 0), the symbol \<^verbatim>\<open>x\<close> (made first, so with identity 0) as the
  value of node 1, a value that is no \<^verbatim>\<open>MX\<close> as the value of node 2, and no other
  node that can be made on demand.
\<close>

definition ex_materialise ::
  "(nat, unit) Generator \<Rightarrow> nat \<Rightarrow> error + (nat, unit) Generator \<times> unit lowered" where
  "ex_materialise g t =
     (if t = 1 then Inr (g, MX (MXSym 0 ''x'' 1 1))
      else if t = 2 then Inr (g, Other ())
      else Inl RuntimeError)"

definition ex_other_branches ::
  "(nat, unit) Generator \<Rightarrow> string \<Rightarrow> (nat, unit) Expression
   \<Rightarrow> error + (nat, unit) Generator \<times> unit lowered" where
  "ex_other_branches g op tree = Inr (g, MX (MXExpr op []))"

definition ex_fmt :: "unit lowered \<Rightarrow> string" where
  "ex_fmt v = ''0.5''"

definition ex_generator :: "(nat, unit) Generator" where
  "ex_generator =
     \<lparr>src = Map.empty, nodes = [0 \<mapsto> Map.empty], derivative = Map.empty,
      entered_classes = [0], model = \<lparr>inputs = [], delayed_states = []\<rparr>,
      symbols_created = 1\<rparr>"

definition ex_der :: "nat \<Rightarrow> (nat, unit) Expression" where
  "ex_der n = \<lparr>expr_node = n, expr_operator = Inl ''der'', expr_operands = [1]\<rparr>"

definition ex_delay :: "nat \<Rightarrow> nat \<Rightarrow> (nat, unit) Expression" where
  "ex_delay n t = \<lparr>expr_node = n, expr_operator = Inr (ComponentRef ''delay'' [] []),
                   expr_operands = [t, 2]\<rparr>"

section \<open>A small if-equation and a small class\<close>

text \<open>
  A kernel that builds terms, for an if-equation with two conditions and two equations
  in each branch; and a class whose symbols are declared out of order, with a derivative
  recorded for \<^verbatim>\<open>x\<close> only.
\<close>

definition ex_vertcat :: "mx list \<Rightarrow> mx" where
  "ex_vertcat xs = MXExpr ''vertcat'' xs"

definition ex_if_else :: "mx \<Rightarrow> mx \<Rightarrow> mx \<Rightarrow> mx" where
  "ex_if_else c a b = MXExpr ''if_else'' [c, a, b]"

definition ex_residual :: "nat \<Rightarrow> mx" where
  "ex_residual n = MXExpr ''residual'' [MXSym n ''v'' 1 1]"

definition ex_symbol :: "string \<Rightarrow> string list \<Rightarrow> int \<Rightarrow> unit Symbol" where
  "ex_symbol n ps k =
     \<lparr>symbol_name = n, symbol_type = ComponentRef ''Real'' [] [],
      symbol_prefixes = ps, symbol_order = k\<rparr>"

definition ex_class :: "unit Class" where
  "ex_class = Class ''M'' ''model''
     [(''v'', ex_symbol ''v'' [] 3),
      (''k'', ex_symbol ''k'' [''parameter''] 1),
      (''c'', ex_symbol ''c'' [''input'', ''parameter'', ''constant''] 0),
      (''u'', ex_symbol ''u'' [''input''] 2),
      (''p'', ex_symbol ''p'' [''input'', ''parameter''] 5),
      (''x'', ex_symbol ''x'' [''output''] 4)] []"

definition ex_symbol_value :: "unit Symbol \<Rightarrow> unit lowered" where
  "ex_symbol_value s = MX (MXSym 0 (symbol_name s) 1 1)"

definition ex_generator_der :: "(nat, unit) Generator" where
  "ex_generator_der =
     ex_generator\<lparr>derivative := [MX (MXSym 0 ''x'' 1 1) \<mapsto> MXSym 1 ''der(x)'' 1 1]\<rparr>"

section \<open>A small store\<close>

text \<open>The reference \<^verbatim>\<open>a[..].b\<close> at address 0 (its child at 1) and the reference \<^verbatim>\<open>c\<close> at 2.\<close>

definition ex_store :: "unit store" where
  "ex_store =
     [\<lparr>obj_name = ''a'', obj_indices = [()], obj_child = [1]\<rparr>,
      \<lparr>obj_name = ''b'', obj_indices = [], obj_child = []\<rparr>,
      \<lparr>obj_name = ''c'', obj_indices = [], obj_child = []\<rparr>]"

section \<open>Definitions used in the proofs only\<close>

text \<open>The chain of nodes named \<open>x # xs\<close>, without indices.\<close>

fun chain :: "string \<Rightarrow> string list \<Rightarrow> 'i ComponentRef" where
  "chain x [] = ComponentRef x [] []"
| "chain x (y # ys) = ComponentRef x [] [chain y ys]"

text \<open>The assignments \<^verbatim>\<open>self.__dict__[key] = value\<close> for a list of pairs, in order.\<close>

definition assign_all :: "'v fields \<Rightarrow> (string \<times> 'v) list \<Rightarrow> 'v fields" where
  "assign_all d kwargs = foldl (\<lambda>m (k, v). m(k \<mapsto> v)) d kwargs"

text \<open>The chain of selections over a list of conditions with their rows.\<close>

definition if_chain ::
  "('v list \<Rightarrow> 'v) \<Rightarrow> ('v \<Rightarrow> 'v \<Rightarrow> 'v \<Rightarrow> 'v) \<Rightarrow> ('v \<times> 'v list) list \<Rightarrow> 'v list \<Rightarrow> 'v" where
  "if_chain vertcat if_else branches else_rows =
     foldr (\<lambda>(cond, rows) rest. if_else cond (vertcat rows) rest) branches (vertcat else_rows)"

text \<open>
  The object at the end of the walk along \<^verbatim>\<open>child[0]\<close>; and what a copy made in the
  store \<open>h\<close> satisfies in the store \<open>h'\<close> afterwards: the old objects are as they
  were, and the copy is made of new objects only, each used once.
\<close>

fun end_addr :: "'i store \<Rightarrow> nat \<Rightarrow> 'i ComponentRef \<Rightarrow> nat" where
  "end_addr h a (ComponentRef n i ts) =
     (case ts of [] \<Rightarrow> a | t # ts' \<Rightarrow> end_addr h (hd (obj_child (h ! a))) t)"

definition fresh_copy :: "'i store \<Rightarrow> 'i store \<Rightarrow> nat \<Rightarrow> 'i ComponentRef \<Rightarrow> bool" where
  "fresh_copy h h' a t \<longleftrightarrow>
     take (length h) h' = h \<and> length h \<le> length h' \<and> denotes h' a t \<and> unshared h' a t
     \<and> addrs h' a t \<subseteq> {length h..<length h'}"

definition fresh_copies :: "'i store \<Rightarrow> 'i store \<Rightarrow> nat list \<Rightarrow> 'i ComponentRef list \<Rightarrow> bool" where
  "fresh_copies h h' cs ts \<longleftrightarrow>
     take (length h) h' = h \<and> length h \<le> length h' \<and> denotes_list h' cs ts \<and> unshared_list h' cs ts
     \<and> addrs_list h' cs ts \<subseteq> {length h..<length h'}"

text \<open>A reference whose \<^verbatim>\<open>child\<close> lists are all empty or singleton.\<close>

fun single_child :: "'i ComponentRef \<Rightarrow> bool" where
  "single_child (ComponentRef n i ts) =
     (case ts of [] \<Rightarrow> True | t # ts' \<Rightarrow> ts' = [] \<and> single_child t)"

section \<open>Round trip of component references\<close>

text \<open>
  The reference that \<open>from_tuple\<close> builds from \<open>x # xs\<close> is the chain of nodes without
  indices, each the only child of the one before.
\<close>

lemma to_tuple_chain: "to_tuple (chain x xs) = x # xs"
  by (induction xs arbitrary: x) simp_all

lemma child_append_at_chain:
  "child_append_at (length xs) (ComponentRef y [] []) (chain x xs) = chain x (xs @ [y])"
  by (induction xs arbitrary: x) simp_all

lemma from_tuple_loop_chain:
  "foldl from_tuple_body (chain x xs :: 'i ComponentRef, length xs) ys
   = (chain x (xs @ ys), length (xs @ ys))"
proof (induction ys arbitrary: xs)
  case Nil
  show ?case by simp
next
  case (Cons y ys)
  have "foldl from_tuple_body (chain x xs :: 'i ComponentRef, length xs) (y # ys)
      = foldl from_tuple_body (chain x (xs @ [y]), length (xs @ [y])) ys"
    by (simp add: from_tuple_body_def child_append_at_chain)
  also have "\<dots> = (chain x ((xs @ [y]) @ ys), length ((xs @ [y]) @ ys))"
    by (rule Cons.IH)
  finally show ?case by simp
qed

lemma from_tuple_Cons: "from_tuple (x # xs) = (Inr (chain x xs) :: error + 'i ComponentRef)"
  using from_tuple_loop_chain [where ?'i = 'i, of x "[]" xs] by (simp add: from_tuple_def)

lemma py_split_not_Nil: "py_split sep s \<noteq> []"
  by (induction s) (auto split: list.splits)

lemma py_join_Cons_Cons:
  "ws \<noteq> [] \<Longrightarrow> py_join sep (w # ws) = w @ sep @ py_join sep ws"
  by (cases ws) simp_all

lemma py_join_split: "py_join [sep] (py_split sep s) = s"
proof (induction s)
  case Nil
  show ?case by simp
next
  case (Cons c cs)
  show ?case
  proof (cases "c = sep")
    case True
    with Cons show ?thesis by (simp add: py_join_Cons_Cons py_split_not_Nil)
  next
    case False
    obtain w ws where ws: "py_split sep cs = w # ws"
      using py_split_not_Nil [of sep cs] by (cases "py_split sep cs") auto
    show ?thesis
    proof (cases ws)
      case Nil
      with ws Cons False show ?thesis by simp
    next
      case (Cons v vs)
      with ws Cons.IH False show ?thesis by simp
    qed
  qed
qed

text \<open>
  Claim C3. For every string \<open>s\<close> (so in particular for every dotted path of names),
  \<^verbatim>\<open>from_string(s)\<close> succeeds and converting the result back with \<^verbatim>\<open>str\<close> gives
  \<open>s\<close>; and for every non-empty tuple of names \<open>x # xs\<close>, \<^verbatim>\<open>from_tuple\<close> succeeds and
  \<^verbatim>\<open>to_tuple\<close> of the result is the tuple again.
\<close>

theorem ComponentRef_round_trip:
  "map_sum id to_string (from_string s :: error + 'i ComponentRef) = Inr s
   \<and> map_sum id to_tuple (from_tuple (x # xs) :: error + 'i ComponentRef) = Inr (x # xs)"
proof -
  obtain w ws where ws: "py_split CHR ''.'' s = w # ws"
    using py_split_not_Nil [of "CHR ''.''" s] by (cases "py_split CHR ''.'' s") auto
  have "py_join ''.'' (py_split CHR ''.'' s) = s" by (rule py_join_split)
  with ws show ?thesis
    by (simp add: from_string_def to_string_def from_tuple_Cons to_tuple_chain)
qed

section \<open>Class lookup\<close>

subsection \<open>The loop\<close>

lemma find_class_loop_law:
  "find_class_loop lookup w r =
     (case lookup (w @ r) of
        Some c \<Rightarrow> (Some c, w @ r)
      | None \<Rightarrow> if w = [] then (None, r) else find_class_loop lookup (butlast w) r)"
  by (subst find_class_loop.simps) (simp add: Let_def split: option.splits)

lemma find_class_loop_snoc:
  "find_class_loop lookup (w @ [x]) r =
     (case lookup (w @ x # r) of
        Some c \<Rightarrow> (Some c, w @ x # r)
      | None \<Rightarrow> find_class_loop lookup w r)"
  by (subst find_class_loop_law) (simp split: option.splits)

lemma find_class_loop_None:
  "fst (find_class_loop lookup w r) = None \<longleftrightarrow> (\<forall>k\<le>length w. lookup (take k w @ r) = None)"
proof (induction w rule: rev_induct)
  case Nil
  show ?case by (subst find_class_loop_law) (simp split: option.splits)
next
  case (snoc x w)
  show ?case
  proof (cases "lookup (w @ x # r)")
    case None
    have "(\<forall>k\<le>length (w @ [x]). lookup (take k (w @ [x]) @ r) = None)
          \<longleftrightarrow> (\<forall>k\<le>length w. lookup (take k w @ r) = None)"
      (is "?L \<longleftrightarrow> ?R")
    proof
      assume l: ?L
      show ?R
      proof (intro allI impI)
        fix k assume "k \<le> length w"
        with l [rule_format, of k] show "lookup (take k w @ r) = None" by simp
      qed
    next
      assume r: ?R
      show ?L
      proof (intro allI impI)
        fix k assume k: "k \<le> length (w @ [x])"
        show "lookup (take k (w @ [x]) @ r) = None"
        proof (cases "k \<le> length w")
          case True
          with r [rule_format, of k] show ?thesis by simp
        next
          case False
          with k have "k = Suc (length w)" by simp
          with None show ?thesis by simp
        qed
      qed
    qed
    with None snoc show ?thesis by (simp add: find_class_loop_snoc)
  next
    case (Some c)
    have "lookup (take (length (w @ [x])) (w @ [x]) @ r) = Some c"
      using Some by simp
    then have "\<not> (\<forall>k\<le>length (w @ [x]). lookup (take k (w @ [x]) @ r) = None)"
      by (metis le_refl option.distinct(1))
    with Some show ?thesis by (simp add: find_class_loop_snoc)
  qed
qed

lemma find_class_loop_Some:
  "fst (find_class_loop lookup w r) = Some c \<Longrightarrow>
   \<exists>k\<le>length w. snd (find_class_loop lookup w r) = take k w @ r
        \<and> lookup (take k w @ r) = Some c
        \<and> (\<forall>j. k < j \<and> j \<le> length w \<longrightarrow> lookup (take j w @ r) = None)"
proof (induction w rule: rev_induct)
  case Nil
  then show ?case by (subst (asm) find_class_loop_law, subst find_class_loop_law) (simp split: option.splits)
next
  case (snoc x w)
  show ?case
  proof (cases "lookup (w @ x # r)")
    case None
    with snoc.prems have "fst (find_class_loop lookup w r) = Some c"
      by (simp add: find_class_loop_snoc)
    from snoc.IH [OF this] obtain k where k: "k \<le> length w"
      "snd (find_class_loop lookup w r) = take k w @ r"
      "lookup (take k w @ r) = Some c"
      "\<forall>j. k < j \<and> j \<le> length w \<longrightarrow> lookup (take j w @ r) = None"
      by blast
    have "\<forall>j. k < j \<and> j \<le> length (w @ [x]) \<longrightarrow> lookup (take j (w @ [x]) @ r) = None"
    proof (intro allI impI)
      fix j assume j: "k < j \<and> j \<le> length (w @ [x])"
      show "lookup (take j (w @ [x]) @ r) = None"
      proof (cases "j \<le> length w")
        case True
        with j k(4) [rule_format, of j] show ?thesis by simp
      next
        case False
        with j have "j = Suc (length w)" by simp
        with None show ?thesis by simp
      qed
    qed
    with k None show ?thesis
      by (intro exI [of _ k]) (simp add: find_class_loop_snoc)
  next
    case (Some d)
    with snoc.prems have "d = c" by (simp add: find_class_loop_snoc)
    with Some show ?thesis
      by (intro exI [of _ "length (w @ [x])"]) (auto simp: find_class_loop_snoc)
  qed
qed

lemma foldl_Inr_total:
  assumes "\<And>x l. x \<in> set xs \<Longrightarrow> \<exists>l'. f l x = Inr l'"
  shows "\<exists>l'. foldl (\<lambda>acc x. case acc of Inl e \<Rightarrow> Inl e | Inr l \<Rightarrow> f l x) (Inr l0) xs = Inr l'"
  using assms
proof (induction xs arbitrary: l0)
  case Nil
  show ?case by simp
next
  case (Cons x xs)
  from Cons.prems [of x l0] obtain l1 where l1: "f l0 x = Inr l1" by auto
  have "\<exists>l'. foldl (\<lambda>acc x. case acc of Inl e \<Rightarrow> Inl e | Inr l \<Rightarrow> f l x) (Inr l1) xs = Inr l'"
    by (rule Cons.IH) (simp add: Cons.prems)
  with l1 show ?case by simp
qed

lemma build_class_lookup_for_class_total:
  "\<exists>lookup'. build_class_lookup_for_class lookup c within = Inr lookup'"
proof (induction lookup c within rule: build_class_lookup_for_class.induct)
  case (1 lookup name ty symbols classes within)
  obtain full_name where full:
    "(case within of
        Some w \<Rightarrow> concatenate [w, ComponentRef name [] []]
      | None \<Rightarrow> Inr (ComponentRef name [] [])) = Inr full_name"
    by (cases within) (simp_all add: concatenate_def)
  have "\<exists>l'. foldl (\<lambda>acc nested_c.
                   case acc of
                     Inl e \<Rightarrow> Inl e
                   | Inr lookup' \<Rightarrow> build_class_lookup_for_class lookup' nested_c (Some full_name))
                (Inr (lookup(to_tuple full_name \<mapsto> Class name ty symbols classes)))
                (map snd classes) = Inr l'"
    by (rule foldl_Inr_total) (rule "1.IH" [OF full _ refl])
  with full show ?case by simp
qed

lemma build_file_total: "\<exists>lookup'. build_file (Inr lookup) f = Inr lookup'"
  unfolding build_file_def Let_def
  by (rule foldl_Inr_total) (rule build_class_lookup_for_class_total)

lemma build_class_lookup_total: "\<exists>lookup. build_class_lookup fs = Inr lookup"
proof -
  have "\<exists>l'. foldl build_file (Inr l0) fs = Inr l'" for l0 :: "'a class_lookup"
  proof (induction fs arbitrary: l0)
    case Nil
    show ?case by simp
  next
    case (Cons f fs)
    obtain l1 where "build_file (Inr l0) f = Inr l1"
      using build_file_total by blast
    with Cons.IH [of l1] show ?case by simp
  qed
  then show ?thesis by (simp add: build_class_lookup_def)
qed

lemma ensure_class_lookup_total: "\<exists>lookup. ensure_class_lookup self = Inr lookup"
  by (cases "class_lookup self") (simp_all add: ensure_class_lookup_def build_class_lookup_total)

lemma to_tuple_not_Nil: "to_tuple r \<noteq> []"
  by (cases r) (simp split: list.splits)

lemma find_class_not_builtin:
  assumes "ensure_class_lookup self = Inr lookup"
  shows "fst (find_class self component_ref within False return_ref) = self\<lparr>class_lookup := Some lookup\<rparr>"
    and "map_sum id found_class (snd (find_class self component_ref within False return_ref))
         = (case fst (find_class_loop lookup (within_tuple_of within) (to_tuple component_ref)) of
              Some c \<Rightarrow> Inr c
            | None \<Rightarrow>
                Inl (if cref_name component_ref \<in> set elementary_names then KeyError None
                     else ClassNotFoundError (''Could not find class '' @ to_string component_ref)))"
proof -
  obtain c p where loop: "find_class_loop lookup (within_tuple_of within) (to_tuple component_ref) = (c, p)"
    by (cases "find_class_loop lookup (within_tuple_of within) (to_tuple component_ref)")
  have p: "p \<noteq> []" if "c = Some d" for d
  proof -
    from that loop have "fst (find_class_loop lookup (within_tuple_of within) (to_tuple component_ref)) = Some d"
      by simp
    from find_class_loop_Some [OF this] loop show ?thesis
      by (auto simp: to_tuple_not_Nil)
  qed
  show "fst (find_class self component_ref within False return_ref) = self\<lparr>class_lookup := Some lookup\<rparr>"
    using assms loop p
    by (cases c; cases p) (auto simp: find_class_def Let_def from_tuple_Cons)
  show "map_sum id found_class (snd (find_class self component_ref within False return_ref))
         = (case fst (find_class_loop lookup (within_tuple_of within) (to_tuple component_ref)) of
              Some c \<Rightarrow> Inr c
            | None \<Rightarrow>
                Inl (if cref_name component_ref \<in> set elementary_names then KeyError None
                     else ClassNotFoundError (''Could not find class '' @ to_string component_ref)))"
    using assms loop p
    by (cases c; cases p) (auto simp: find_class_def Let_def from_tuple_Cons)
qed

subsection \<open>The cache is the flat mapping\<close>

lemma store_all_append: "store_all l (es @ fs) = store_all (store_all l es) fs"
  by (simp add: store_all_def)

lemma store_all_Cons: "store_all l ((k, c) # es) = store_all (l(k \<mapsto> c)) es"
  by (simp add: store_all_def)

lemma store_all_Nil: "store_all l [] = l"
  by (simp add: store_all_def)

lemma to_tuple_set_deepest_child:
  "to_tuple (set_deepest_child a b) = to_tuple a @ to_tuple b"
  by (induction a b rule: set_deepest_child.induct) (simp split: list.splits)

lemma foldl_Inr_eq:
  assumes "\<And>x l. x \<in> set xs \<Longrightarrow> f l x = Inr (store_all l (g x))"
  shows "foldl (\<lambda>acc x. case acc of Inl e \<Rightarrow> Inl e | Inr l \<Rightarrow> f l x) (Inr l0) xs
         = Inr (store_all l0 (concat (map g xs)))"
  using assms
proof (induction xs arbitrary: l0)
  case Nil
  show ?case by (simp add: store_all_Nil)
next
  case (Cons x xs)
  have "foldl (\<lambda>acc x. case acc of Inl e \<Rightarrow> Inl e | Inr l \<Rightarrow> f l x) (Inr (store_all l0 (g x))) xs
         = Inr (store_all (store_all l0 (g x)) (concat (map g xs)))"
    by (rule Cons.IH) (simp add: Cons.prems)
  then show ?case by (simp add: Cons.prems store_all_append)
qed

lemma build_class_lookup_for_class_entries:
  "build_class_lookup_for_class lookup c within
   = Inr (store_all lookup (spec_class_entries (case within of None \<Rightarrow> [] | Some w \<Rightarrow> to_tuple w) c))"
proof (induction lookup c within rule: build_class_lookup_for_class.induct)
  case (1 lookup name ty symbols classes within)
  define scope where "scope = (case within of None \<Rightarrow> [] | Some w \<Rightarrow> to_tuple w)"
  obtain full_name where full:
    "(case within of
        Some w \<Rightarrow> concatenate [w, ComponentRef name [] []]
      | None \<Rightarrow> Inr (ComponentRef name [] [])) = Inr full_name"
    and tup: "to_tuple full_name = scope @ [name]"
    by (cases within) (simp_all add: concatenate_def scope_def to_tuple_set_deepest_child)
  have "foldl (\<lambda>acc nested_c.
                   case acc of
                     Inl e \<Rightarrow> Inl e
                   | Inr lookup' \<Rightarrow> build_class_lookup_for_class lookup' nested_c (Some full_name))
                (Inr (lookup(to_tuple full_name \<mapsto> Class name ty symbols classes)))
                (map snd classes)
        = Inr (store_all (lookup(to_tuple full_name \<mapsto> Class name ty symbols classes))
                 (concat (map (spec_class_entries (scope @ [name])) (map snd classes))))"
  proof (rule foldl_Inr_eq)
    fix x l assume "x \<in> set (map snd classes)"
    from "1.IH" [OF full this refl, of l] tup
    show "build_class_lookup_for_class l x (Some full_name)
          = Inr (store_all l (spec_class_entries (scope @ [name]) x))"
      by simp
  qed
  with full tup show ?case
    by (simp add: store_all_Cons flip: scope_def)
qed

lemma build_file_entries:
  "build_file (Inr lookup) f = Inr (store_all lookup (spec_file_entries f))"
proof -
  have w: "(case (case file_within f of [] \<Rightarrow> None | w # ws \<Rightarrow> Some w) of
              None \<Rightarrow> [] | Some w \<Rightarrow> to_tuple w) = within_tuple_of (file_within f)"
    by (simp add: within_tuple_of_def split: list.splits)
  show ?thesis
    unfolding build_file_def Let_def spec_file_entries_def
    by (rule foldl_Inr_eq) (simp add: build_class_lookup_for_class_entries w)
qed

lemma build_class_lookup_flat: "build_class_lookup fs = Inr (spec_flat_mapping fs)"
proof -
  have "foldl build_file (Inr l0) fs = Inr (store_all l0 (concat (map spec_file_entries fs)))"
    for l0 :: "'a class_lookup"
  proof (induction fs arbitrary: l0)
    case Nil
    show ?case by (simp add: store_all_Nil)
  next
    case (Cons f fs)
    show ?case by (simp add: build_file_entries Cons.IH store_all_append)
  qed
  then show ?thesis by (simp add: build_class_lookup_def spec_flat_mapping_def)
qed

lemma ensure_class_lookup_eq:
  "ensure_class_lookup self
   = Inr (case class_lookup self of None \<Rightarrow> spec_flat_mapping (files self) | Some lookup \<Rightarrow> lookup)"
  by (simp add: ensure_class_lookup_def build_class_lookup_flat split: option.splits)

subsection \<open>Resolution\<close>

lemmas ex_defs = ex_M_inner_def ex_P_def ex_M_outer_def ex_collection_def ex_N_def ex_other_def

lemma find_class_general:
  assumes "\<not> (check_builtin_classes \<and> cref_name component_ref \<in> set builtin_names)"
    and "lookup = (case class_lookup self of None \<Rightarrow> spec_flat_mapping (files self) | Some cached \<Rightarrow> cached)"
  shows "find_class self component_ref within check_builtin_classes return_ref
         = find_class self component_ref within False return_ref"
    and "ensure_class_lookup self = Inr lookup"
  using assms by (auto simp: find_class_def ensure_class_lookup_eq)

text \<open>
  Claim C1. Let \<open>lookup\<close> be the mapping that \<^verbatim>\<open>find_class\<close> consults: the cache
  when there is one, and otherwise the flat mapping of fully-qualified name tuples built
  from the files, which the call then stores as the cache. Unless the short cut for
  built-in names applies, the lookup is the loop over that mapping: the loop tries the
  key \<open>w @ rt\<close>; a hit is returned; after a miss it drops the last element of \<open>w\<close>
  and tries again, and it ends with no class exactly when \<open>w\<close> is empty and that
  last key misses too. So the call fails if and only if every prefix of the \<^verbatim>\<open>within\<close>
  tuple, down to the empty one, misses.
\<close>

theorem find_class_scope_walk:
  assumes nb: "\<not> (check_builtin_classes \<and> cref_name component_ref \<in> set builtin_names)"
    and lookup: "lookup = (case class_lookup self of
                             None \<Rightarrow> spec_flat_mapping (files self)
                           | Some cached \<Rightarrow> cached)"
    and wt: "wt = within_tuple_of within"
    and rt: "rt = to_tuple component_ref"
    and res: "res = find_class self component_ref within check_builtin_classes return_ref"
  shows "fst res = self\<lparr>class_lookup := Some lookup\<rparr>
       \<and> (\<forall>w. find_class_loop lookup w rt =
                 (case lookup (w @ rt) of
                    Some c \<Rightarrow> (Some c, w @ rt)
                  | None \<Rightarrow> if w = [] then (None, rt)
                            else find_class_loop lookup (butlast w) rt))
       \<and> map_sum (\<lambda>e. ()) found_class (snd res)
           = (case fst (find_class_loop lookup wt rt) of Some c \<Rightarrow> Inr c | None \<Rightarrow> Inl ())
       \<and> (isl (snd res) \<longleftrightarrow> (\<forall>k\<le>length wt. lookup (take k wt @ rt) = None))"
proof -
  have res': "res = find_class self component_ref within False return_ref"
    and ens: "ensure_class_lookup self = Inr lookup"
    using find_class_general [OF nb lookup] res by simp_all
  note fc = find_class_not_builtin [OF ens, of component_ref within return_ref, folded res' wt rt]
  have a: "fst res = self\<lparr>class_lookup := Some lookup\<rparr>" by (rule fc(1))
  have b: "\<forall>w. find_class_loop lookup w rt =
                 (case lookup (w @ rt) of
                    Some c \<Rightarrow> (Some c, w @ rt)
                  | None \<Rightarrow> if w = [] then (None, rt)
                            else find_class_loop lookup (butlast w) rt)"
    by (intro allI) (rule find_class_loop_law)
  have c: "map_sum (\<lambda>e. ()) found_class (snd res)
           = (case fst (find_class_loop lookup wt rt) of Some c \<Rightarrow> Inr c | None \<Rightarrow> Inl ())"
    using fc(2) by (cases "snd res"; cases "fst (find_class_loop lookup wt rt)") auto
  have "isl (snd res) \<longleftrightarrow> fst (find_class_loop lookup wt rt) = None"
    using fc(2) by (cases "snd res"; cases "fst (find_class_loop lookup wt rt)") auto
  then have d: "isl (snd res) \<longleftrightarrow> (\<forall>k\<le>length wt. lookup (take k wt @ rt) = None)"
    by (simp add: find_class_loop_None)
  from a b c d show ?thesis by blast
qed

lemma ex_lookup:
  "spec_flat_mapping (files ex_collection)
   = [[''P''] \<mapsto> ex_P, [''P'', ''M''] \<mapsto> ex_M_inner, [''M''] \<mapsto> ex_M_outer]"
  by (simp add: spec_flat_mapping_def spec_file_entries_def store_all_def within_tuple_of_def ex_defs)

text \<open>
  In the small collection, \<^verbatim>\<open>M\<close> looked up from the scope \<^verbatim>\<open>P.Q\<close> misses at
  \<^verbatim>\<open>P.Q.M\<close> and is found at \<^verbatim>\<open>P.M\<close>, before the top-level \<^verbatim>\<open>M\<close>;
  \<^verbatim>\<open>Z\<close> misses at every level.
\<close>

theorem find_class_scope_walk_witness:
  "map_sum (\<lambda>e. ()) found_class
     (snd (find_class ex_collection (ComponentRef ''M'' [] [])
             [ComponentRef ''P'' [] [ComponentRef ''Q'' [] []]] False False))
   = Inr ex_M_inner
   \<and> isl (snd (find_class ex_collection (ComponentRef ''Z'' [] [])
             [ComponentRef ''P'' [] [ComponentRef ''Q'' [] []]] False False))"
proof -
  have nb: "\<not> (False \<and> cref_name (ComponentRef n [] [] :: unit ComponentRef) \<in> set builtin_names)" for n
    by simp
  have lk: "spec_flat_mapping (files ex_collection)
      = (case class_lookup ex_collection of
           None \<Rightarrow> spec_flat_mapping (files ex_collection) | Some cached \<Rightarrow> cached)"
    by (simp add: ex_collection_def)
  have miss: "\<forall>k\<le>length [''P'', ''Q''].
      spec_flat_mapping (files ex_collection) (take k [''P'', ''Q''] @ [''Z'']) = None"
  proof (intro allI impI)
    fix k :: nat assume "k \<le> length [''P'', ''Q'']"
    then have "k = 0 \<or> k = 1 \<or> k = 2" by auto
    then show "spec_flat_mapping (files ex_collection) (take k [''P'', ''Q''] @ [''Z'']) = None"
      by (auto simp: ex_lookup)
  qed
  have loop: "fst (find_class_loop (spec_flat_mapping (files ex_collection)) [''P'', ''Q''] [''M''])
              = Some ex_M_inner"
    by (simp add: find_class_loop_law ex_lookup)
  from find_class_scope_walk [OF nb lk _ _ refl, of "[''P'', ''Q'']" _ "[''M'']" "''M''" False]
       find_class_scope_walk [OF nb lk _ _ refl, of "[''P'', ''Q'']" _ "[''Z'']" "''Z''" False]
       miss loop
  show ?thesis
    by (simp add: within_tuple_of_def)
qed

text \<open>
  Claim C7. When the resolution runs (the short cut for built-in names does not apply) and
  every key of the scope chain misses, \<^verbatim>\<open>find_class\<close> raises the bare
  \<^verbatim>\<open>KeyError\<close> if the first name of the reference is one of \<^verbatim>\<open>Real\<close>,
  \<^verbatim>\<open>Integer\<close>, \<^verbatim>\<open>Boolean\<close>, \<^verbatim>\<open>String\<close>, \<^verbatim>\<open>Modelica\<close>, \<^verbatim>\<open>SI\<close>, and
  otherwise \<^verbatim>\<open>ClassNotFoundError\<close> with the message \<^verbatim>\<open>Could not find class\<close>
  followed by the dotted reference. The two exceptions are different values, whatever
  the message.
\<close>

theorem find_class_failure_kinds:
  assumes nb: "\<not> (check_builtin_classes \<and> cref_name component_ref \<in> set builtin_names)"
    and lookup: "lookup = (case class_lookup self of
                             None \<Rightarrow> spec_flat_mapping (files self)
                           | Some cached \<Rightarrow> cached)"
    and wt: "wt = within_tuple_of within"
    and rt: "rt = to_tuple component_ref"
    and exhausted: "\<forall>k\<le>length wt. lookup (take k wt @ rt) = None"
  shows "snd (find_class self component_ref within check_builtin_classes return_ref)
         = Inl (if cref_name component_ref \<in> set elementary_names then KeyError None
                else ClassNotFoundError (''Could not find class '' @ to_string component_ref))
       \<and> (\<forall>msg. KeyError None \<noteq> ClassNotFoundError msg)"
proof -
  have ens: "ensure_class_lookup self = Inr lookup"
    and eq: "find_class self component_ref within check_builtin_classes return_ref
             = find_class self component_ref within False return_ref"
    using find_class_general [OF nb lookup] by simp_all
  from exhausted have "fst (find_class_loop lookup wt rt) = None"
    by (simp add: find_class_loop_None)
  with find_class_not_builtin(2) [OF ens, of component_ref within return_ref, folded wt rt]
  have "map_sum id found_class (snd (find_class self component_ref within False return_ref))
        = Inl (if cref_name component_ref \<in> set elementary_names then KeyError None
               else ClassNotFoundError (''Could not find class '' @ to_string component_ref))"
    by simp
  then have "snd (find_class self component_ref within False return_ref)
        = Inl (if cref_name component_ref \<in> set elementary_names then KeyError None
               else ClassNotFoundError (''Could not find class '' @ to_string component_ref))"
    by (cases "snd (find_class self component_ref within False return_ref)") auto
  with eq show ?thesis by simp
qed

text \<open>
  In the small collection, \<^verbatim>\<open>Modelica.SIunits\<close> and \<^verbatim>\<open>Z.Y\<close> both miss from the
  scope \<^verbatim>\<open>P\<close>: the first raises \<^verbatim>\<open>KeyError\<close>, the second
  \<^verbatim>\<open>ClassNotFoundError\<close>.
\<close>

theorem find_class_failure_kinds_witness:
  "snd (find_class ex_collection (ComponentRef ''Modelica'' [] [ComponentRef ''SIunits'' [] []])
          [ComponentRef ''P'' [] []] False False) = Inl (KeyError None)
   \<and> snd (find_class ex_collection (ComponentRef ''Z'' [] [ComponentRef ''Y'' [] []])
          [ComponentRef ''P'' [] []] False False) = Inl (ClassNotFoundError ''Could not find class Z.Y'')"
proof -
  have lk: "spec_flat_mapping (files ex_collection)
      = (case class_lookup ex_collection of
           None \<Rightarrow> spec_flat_mapping (files ex_collection) | Some cached \<Rightarrow> cached)"
    by (simp add: ex_collection_def)
  have miss: "\<forall>k\<le>length [''P''].
      spec_flat_mapping (files ex_collection) (take k [''P''] @ [n, ''SIunits'']) = None"
    "\<forall>k\<le>length [''P''].
      spec_flat_mapping (files ex_collection) (take k [''P''] @ [n, ''Y'']) = None" for n
  proof -
    have k: "k = 0 \<or> k = 1" if "k \<le> length [''P'']" for k :: nat
      using that by auto
    show "\<forall>k\<le>length [''P''].
      spec_flat_mapping (files ex_collection) (take k [''P''] @ [n, ''SIunits'']) = None"
      using k by (auto simp: ex_lookup)
    show "\<forall>k\<le>length [''P''].
      spec_flat_mapping (files ex_collection) (take k [''P''] @ [n, ''Y'']) = None"
      using k by (auto simp: ex_lookup)
  qed
  have "snd (find_class ex_collection (ComponentRef ''Modelica'' [] [ComponentRef ''SIunits'' [] []])
          [ComponentRef ''P'' [] []] False False) = Inl (KeyError None)"
    using find_class_failure_kinds [where check_builtin_classes = False
        and component_ref = "ComponentRef ''Modelica'' [] [ComponentRef ''SIunits'' [] []]"
        and within = "[ComponentRef ''P'' [] []]" and return_ref = False, OF _ lk refl refl] miss(1)
    by (simp add: within_tuple_of_def elementary_names_def)
  moreover
  have "snd (find_class ex_collection (ComponentRef ''Z'' [] [ComponentRef ''Y'' [] []])
          [ComponentRef ''P'' [] []] False False) = Inl (ClassNotFoundError ''Could not find class Z.Y'')"
    using find_class_failure_kinds [where check_builtin_classes = False
        and component_ref = "ComponentRef ''Z'' [] [ComponentRef ''Y'' [] []]"
        and within = "[ComponentRef ''P'' [] []]" and return_ref = False, OF _ lk refl refl] miss(2)
    by (simp add: within_tuple_of_def elementary_names_def to_string_def)
  ultimately show ?thesis by simp
qed

subsection \<open>Appending files\<close>

text \<open>
  Once the cache is filled, the files that \<^verbatim>\<open>extend\<close> appends have no effect on what
  \<^verbatim>\<open>find_class\<close> returns.
\<close>

lemma find_class_extend_cached:
  "class_lookup self = Some lookup \<Longrightarrow>
   snd (find_class (extend_collection self other) component_ref within check_builtin_classes return_ref)
   = snd (find_class self component_ref within check_builtin_classes return_ref)"
  by (auto simp: find_class_def ensure_class_lookup_def extend_collection_def Let_def
           split: prod.splits option.splits sum.splits)

lemma ex_extended_lookup:
  "spec_flat_mapping (files (extend_collection ex_collection ex_other))
   = [[''P''] \<mapsto> ex_P, [''P'', ''M''] \<mapsto> ex_M_inner, [''M''] \<mapsto> ex_M_outer, [''P'', ''N''] \<mapsto> ex_N]"
  by (simp add: spec_flat_mapping_def spec_file_entries_def store_all_def within_tuple_of_def
        extend_collection_def ex_defs)

lemma find_class_eval:
  "find_class self component_ref within False False =
     (case ensure_class_lookup self of
        Inl e \<Rightarrow> (self, Inl e)
      | Inr lookup \<Rightarrow>
          (self\<lparr>class_lookup := Some lookup\<rparr>,
           case fst (find_class_loop lookup (within_tuple_of within) (to_tuple component_ref)) of
             None \<Rightarrow> Inl (if cref_name component_ref \<in> set elementary_names then KeyError None
                          else ClassNotFoundError (''Could not find class '' @ to_string component_ref))
           | Some c \<Rightarrow> Inr (Found c)))"
  by (simp add: find_class_def Let_def split: sum.splits prod.splits option.splits)

text \<open>
  Claim C2 asks that \<^verbatim>\<open>extend\<close> invalidate the cache. The code does not:
  \<^verbatim>\<open>extend\<close> only appends the files. After one \<^verbatim>\<open>find_class\<close> on the small
  collection (which fills the cache) and \<^verbatim>\<open>extend\<close> by the second collection,
  the class \<^verbatim>\<open>P.N\<close> of the appended file is not found; the same \<^verbatim>\<open>extend\<close> on
  the collection that was never queried finds it.
\<close>

theorem extend_after_find_class_stale:
  "snd (find_class
          (extend_collection (fst (find_class ex_collection (ComponentRef ''M'' [] []) [] False False)) ex_other)
          (ComponentRef ''P'' [] [ComponentRef ''N'' [] []]) [] False False)
     = Inl (ClassNotFoundError ''Could not find class P.N'')
   \<and> snd (find_class (extend_collection ex_collection ex_other)
            (ComponentRef ''P'' [] [ComponentRef ''N'' [] []]) [] False False)
     = Inr (Found ex_N)"
proof -
  have c1: "fst (find_class ex_collection (ComponentRef ''M'' [] []) [] False False)
            = ex_collection\<lparr>class_lookup := Some (spec_flat_mapping (files ex_collection))\<rparr>"
    by (simp add: find_class_eval ensure_class_lookup_eq) (simp add: ex_collection_def)
  have stale: "ensure_class_lookup (extend_collection (ex_collection\<lparr>class_lookup := Some l\<rparr>) ex_other) = Inr l"
    for l
    by (simp add: ensure_class_lookup_eq extend_collection_def)
  have fresh: "ensure_class_lookup (extend_collection ex_collection ex_other)
               = Inr (spec_flat_mapping (files (extend_collection ex_collection ex_other)))"
    by (simp add: ensure_class_lookup_eq) (simp add: extend_collection_def ex_collection_def)
  show ?thesis
    unfolding c1
    by (simp add: find_class_eval stale fresh within_tuple_of_def find_class_loop_law
          ex_lookup ex_extended_lookup elementary_names_def to_string_def)
qed
section \<open>Node construction rejects unknown fields\<close>

lemma assign_all_Cons: "assign_all d ((k, v) # kwargs) = assign_all (d(k \<mapsto> v)) kwargs"
  by (simp add: assign_all_def)

lemma set_args_valid_prefix:
  "\<forall>k \<in> set (map fst pre). d k \<noteq> None \<Longrightarrow>
   set_args d (pre @ rest) = set_args (assign_all d pre) rest"
proof (induction pre arbitrary: d)
  case Nil
  show ?case by (simp add: assign_all_def)
next
  case (Cons p pre)
  obtain k v where p: "p = (k, v)" by (cases p)
  from Cons.prems p have k: "d k \<noteq> None" by simp
  have "\<forall>k' \<in> set (map fst pre). (d(k \<mapsto> v)) k' \<noteq> None"
    using Cons.prems by auto
  then have "set_args (d(k \<mapsto> v)) (pre @ rest) = set_args (assign_all (d(k \<mapsto> v)) pre) rest"
    by (rule Cons.IH)
  moreover have "set_args d ((p # pre) @ rest) = set_args (d(k \<mapsto> v)) (pre @ rest)"
    using k p by auto
  ultimately show ?case
    using p by (simp only: assign_all_Cons)
qed

lemma dom_assign_all:
  "\<forall>k \<in> set (map fst pre). d k \<noteq> None \<Longrightarrow> dom (assign_all d pre) = dom d"
proof (induction pre arbitrary: d)
  case Nil
  show ?case by (simp add: assign_all_def)
next
  case (Cons p pre)
  obtain k v where p: "p = (k, v)" by (cases p)
  from Cons.prems p have k: "d k \<noteq> None" by simp
  have "\<forall>k' \<in> set (map fst pre). (d(k \<mapsto> v)) k' \<noteq> None"
    using Cons.prems by auto
  from Cons.IH [OF this] have "dom (assign_all (d(k \<mapsto> v)) pre) = dom (d(k \<mapsto> v))" .
  moreover have "dom (d(k \<mapsto> v)) = dom d" using k by auto
  ultimately show ?case using p by (simp only: assign_all_Cons)
qed

text \<open>
  Claim C8, amended. If the keyword arguments before \<open>key\<close> all name fields and
  \<open>key\<close> does not, construction fails with \<^verbatim>\<open>KeyError\<close> and the message
  \<^verbatim>\<open><key> not valid arg\<close>. The instance dictionary then holds the assignments of the
  arguments before \<open>key\<close> and nothing else: it has the fields it had, and \<open>key\<close> is
  not one of them.
\<close>

theorem Node_init_rejects_unknown_key:
  assumes valid: "\<forall>k \<in> set (map fst pre). defaults k \<noteq> None"
    and unknown: "defaults key = None"
  shows "Node_init defaults (pre @ (key, v) # post)
           = (assign_all defaults pre, Some (KeyError (Some (key @ '' not valid arg''))))
       \<and> dom (fst (Node_init defaults (pre @ (key, v) # post))) = dom defaults
       \<and> fst (Node_init defaults (pre @ (key, v) # post)) key = None"
proof -
  have d: "dom (assign_all defaults pre) = dom defaults"
    using valid by (rule dom_assign_all)
  with unknown have n: "assign_all defaults pre key = None" by (metis domIff)
  have "set_args defaults (pre @ (key, v) # post) = set_args (assign_all defaults pre) ((key, v) # post)"
    using valid by (rule set_args_valid_prefix)
  with n d show ?thesis by (simp add: Node_init_def)
qed

text \<open>
  A node with the one field \<^verbatim>\<open>name\<close>, constructed with \<^verbatim>\<open>name\<close>,
  \<^verbatim>\<open>indexes\<close> and \<^verbatim>\<open>child\<close>: \<^verbatim>\<open>name\<close> is assigned, \<^verbatim>\<open>indexes\<close> is
  rejected.
\<close>

theorem Node_init_rejects_unknown_key_witness:
  "Node_init [''name'' \<mapsto> ''''] [(''name'', ''x''), (''indexes'', ''i''), (''child'', ''c'')]
     = ([''name'' \<mapsto> ''x''], Some (KeyError (Some ''indexes not valid arg'')))"
  using Node_init_rejects_unknown_key [of "[(''name'', ''x'')]" "[''name'' \<mapsto> '''']" "''indexes''" "''i''"
      "[(''child'', ''c'')]"]
  by (simp add: assign_all_def)

text \<open>
  Claim C8 as it is written names the error by the words \<^verbatim>\<open>not a valid field\<close>.
  The message of the code does not contain them.
\<close>

theorem Node_init_message_counterexample:
  "snd (Node_init [''value'' \<mapsto> (0::nat)] [(''valeu'', 1)])
     = Some (KeyError (Some ''valeu not valid arg''))
   \<and> \<not> sublist ''not a valid field'' ''valeu not valid arg''"
  by (simp add: Node_init_def sublist_Cons_right)

section \<open>Derivative symbols\<close>

lemma keeps_derivativeD:
  "keeps_derivative f \<Longrightarrow> f g a = Inr (g', v) \<Longrightarrow> derivative g \<subseteq>\<^sub>m derivative g'"
  by (auto simp: keeps_derivative_def)

lemma get_mx_keeps:
  assumes "keeps_derivative materialise"
  shows "keeps_derivative (get_mx materialise)"
  unfolding keeps_derivative_def
proof (intro allI impI)
  fix g a g' v
  assume r: "get_mx materialise g a = Inr (g', v)"
  show "derivative g \<subseteq>\<^sub>m derivative g'"
  proof (cases "src g a")
    case (Some w)
    with r show ?thesis by (simp add: get_mx_def)
  next
    case None
    with r obtain g1 where m: "materialise g a = Inr (g1, v)" and g': "g' = g1\<lparr>src := (src g1)(a \<mapsto> v)\<rparr>"
      by (auto simp: get_mx_def split: sum.splits)
    from keeps_derivativeD [OF assms m] g' show ?thesis by simp
  qed
qed

lemma exitExpression_der_result:
  assumes "exitExpression_der g orig = Inr (g', v)"
  shows "derivative g \<subseteq>\<^sub>m derivative g' \<and> (\<exists>d. v = MX d \<and> derivative g' orig = Some d)"
proof (cases "derivative g orig")
  case (Some d)
  with assms show ?thesis by (simp add: exitExpression_der_def)
next
  case None
  then have le: "derivative g \<subseteq>\<^sub>m (derivative g)(orig \<mapsto> s)" for s
    by (auto simp: map_le_def)
  from assms None le show ?thesis
    by (auto simp: exitExpression_der_def Let_def
             split: lowered.splits mx.splits list.splits option.splits)
qed

lemma exitExpression_der_keeps: "keeps_derivative exitExpression_der"
  using exitExpression_der_result by (fastforce simp: keeps_derivative_def)

lemma exitExpression_delay_derivative:
  "exitExpression_delay fmt g expr delay_time = Inr (g', v) \<Longrightarrow> derivative g' = derivative g"
  by (auto simp: exitExpression_delay_def Let_def split: lowered.splits mx.splits)

lemma exitExpression_keeps:
  assumes mat: "keeps_derivative materialise"
    and oth: "\<forall>op. keeps_derivative (\<lambda>g. other g op)"
    and r: "exitExpression materialise other fmt g tree = Inr g'"
  shows "derivative g \<subseteq>\<^sub>m derivative g'"
proof -
  let ?op = "normalise_op (operator_name (expr_operator tree))"
  note gm = keeps_derivativeD [OF get_mx_keeps [OF mat]]
  consider (der) "?op = ''der''"
    | (delay) "?op \<noteq> ''der''" "?op = ''delay'' \<and> length (expr_operands tree) = 2"
    | (other) "?op \<noteq> ''der''" "\<not> (?op = ''delay'' \<and> length (expr_operands tree) = 2)"
    by blast
  then show ?thesis
  proof cases
    case der
    with r obtain t0 ts g0 orig g1 v where
      "get_mx materialise g t0 = Inr (g0, orig)" "exitExpression_der g0 orig = Inr (g1, v)"
      "g' = g1\<lparr>src := (src g1)(expr_node tree \<mapsto> v)\<rparr>"
      by (auto simp: exitExpression_def Let_def split: list.splits sum.splits)
    with gm [of g t0 g0 orig] exitExpression_der_result [of g0 orig g1 v]
    show ?thesis by (auto intro: map_le_trans)
  next
    case delay
    with r obtain g0 expr g1 delay_time g2 v where
      "get_mx materialise g (expr_operands tree ! 0) = Inr (g0, expr)"
      "get_mx materialise g0 (expr_operands tree ! 1) = Inr (g1, delay_time)"
      "exitExpression_delay fmt g1 expr delay_time = Inr (g2, v)"
      "g' = g2\<lparr>src := (src g2)(expr_node tree \<mapsto> v)\<rparr>"
      by (auto simp: exitExpression_def Let_def split: sum.splits)
    with gm [of g "expr_operands tree ! 0" g0 expr] gm [of g0 "expr_operands tree ! 1" g1 delay_time]
      exitExpression_delay_derivative [of fmt g1 expr delay_time g2 v]
    show ?thesis by (auto intro: map_le_trans)
  next
    case other
    with r obtain g1 v where "other g ?op tree = Inr (g1, v)"
      "g' = g1\<lparr>src := (src g1)(expr_node tree \<mapsto> v)\<rparr>"
      by (auto simp: exitExpression_def Let_def split: sum.splits)
    with keeps_derivativeD [OF oth [rule_format, of ?op], of g tree g1 v]
    show ?thesis by simp
  qed
qed

lemma exitExpressions_keeps:
  assumes mat: "keeps_derivative materialise"
    and oth: "\<forall>op. keeps_derivative (\<lambda>g. other g op)"
  shows "exitExpressions materialise other fmt g trees = Inr g' \<Longrightarrow> derivative g \<subseteq>\<^sub>m derivative g'"
proof (induction trees arbitrary: g)
  case Nil
  then show ?case by simp
next
  case (Cons tree trees)
  then obtain g1 where s: "exitExpression materialise other fmt g tree = Inr g1"
    and r: "exitExpressions materialise other fmt g1 trees = Inr g'"
    by (auto split: sum.splits)
  from exitExpression_keeps [OF mat oth s] Cons.IH [OF r] show ?case
    by (rule map_le_trans)
qed

lemma exitExpression_der_known:
  assumes der: "normalise_op (operator_name (expr_operator tree)) = ''der''"
    and operands: "expr_operands tree = t0 # ts"
    and lowered: "get_mx materialise g t0 = Inr (g0, x)"
    and known: "derivative g0 x = Some d"
  shows "exitExpression materialise other fmt g tree
         = Inr (g0\<lparr>src := (src g0)(expr_node tree \<mapsto> MX d)\<rparr>)"
  using assms by (simp add: exitExpression_def exitExpression_der_def)

lemma exitExpression_der_new:
  assumes der: "normalise_op (operator_name (expr_operator tree)) = ''der''"
    and operands: "expr_operands tree = t0 # ts"
    and lowered: "get_mx materialise g t0 = Inr (g0, MX (MXSym i name r c))"
    and new: "derivative g0 (MX (MXSym i name r c)) = None"
    and entered: "entered_classes g0 \<noteq> []" "nodes g0 (last (entered_classes g0)) = Some tab"
    and s: "s = MXSym (symbols_created g0) (''der('' @ name @ '')'') r c"
  shows "exitExpression materialise other fmt g tree
         = Inr (g0\<lparr>symbols_created := Suc (symbols_created g0),
                   derivative := (derivative g0)(MX (MXSym i name r c) \<mapsto> s),
                   nodes := (nodes g0)(last (entered_classes g0) \<mapsto> tab(Inr s \<mapsto> s)),
                   src := (src g0)(expr_node tree \<mapsto> MX s)\<rparr>)"
  using assms
  by (cases "entered_classes g0") (simp_all add: exitExpression_def exitExpression_der_def Let_def)

text \<open>
  Claim C4. Let the operand of a \<^verbatim>\<open>der\<close> expression lower to the symbol \<open>x\<close>, inside
  an entered class. Then \<^verbatim>\<open>exitExpression\<close> succeeds, stores a symbol \<open>d\<close> for the
  expression and has \<open>d\<close> in the derivative table under \<open>x\<close>. If the table had no
  entry for \<open>x\<close>, \<open>d\<close> is a new symbol named \<^verbatim>\<open>der(<name of x>)\<close> with the shape
  of \<open>x\<close>, and it is the one symbol made; if it had one, \<open>d\<close> is that entry, no
  symbol is made and the table is unchanged. And after any further sequence of
  \<^verbatim>\<open>exitExpression\<close> calls, every \<^verbatim>\<open>der\<close> expression whose operand lowers to
  \<open>x\<close> gets the same \<open>d\<close>, makes no symbol and leaves the table as it is.
\<close>

theorem exitExpression_der_unique:
  assumes mat: "keeps_derivative materialise"
    and oth: "\<forall>op. keeps_derivative (\<lambda>g. other g op)"
    and der: "normalise_op (operator_name (expr_operator tree)) = ''der''"
    and operands: "expr_operands tree = t0 # ts"
    and lowered: "get_mx materialise g t0 = Inr (g0, x)"
    and x: "x = MX (MXSym i name r c)"
    and entered: "entered_classes g0 \<noteq> []" "nodes g0 (last (entered_classes g0)) \<noteq> None"
  shows "\<exists>g1 d. exitExpression materialise other fmt g tree = Inr g1
           \<and> src g1 (expr_node tree) = Some (MX d)
           \<and> derivative g1 x = Some d
           \<and> (case derivative g0 x of
                 None \<Rightarrow> d = MXSym (symbols_created g0) (''der('' @ name @ '')'') r c
                           \<and> symbols_created g1 = Suc (symbols_created g0)
               | Some d0 \<Rightarrow> d = d0 \<and> symbols_created g1 = symbols_created g0
                           \<and> derivative g1 = derivative g0)
           \<and> (\<forall>trees g2 tree' t0' ts' g3.
                 exitExpressions materialise other fmt g1 trees = Inr g2
                 \<and> normalise_op (operator_name (expr_operator tree')) = ''der''
                 \<and> expr_operands tree' = t0' # ts'
                 \<and> get_mx materialise g2 t0' = Inr (g3, x)
                 \<longrightarrow> (\<exists>g4. exitExpression materialise other fmt g2 tree' = Inr g4
                          \<and> src g4 (expr_node tree') = Some (MX d)
                          \<and> symbols_created g4 = symbols_created g3
                          \<and> derivative g4 = derivative g3))"
proof -
  have first: "\<exists>g1 d. exitExpression materialise other fmt g tree = Inr g1
           \<and> src g1 (expr_node tree) = Some (MX d)
           \<and> derivative g1 x = Some d
           \<and> (case derivative g0 x of
                 None \<Rightarrow> d = MXSym (symbols_created g0) (''der('' @ name @ '')'') r c
                           \<and> symbols_created g1 = Suc (symbols_created g0)
               | Some d0 \<Rightarrow> d = d0 \<and> symbols_created g1 = symbols_created g0
                           \<and> derivative g1 = derivative g0)"
  proof (cases "derivative g0 x")
    case None
    from entered obtain tab where tab: "nodes g0 (last (entered_classes g0)) = Some tab" by auto
    from None x have new: "derivative g0 (MX (MXSym i name r c)) = None" by simp
    from lowered x have low: "get_mx materialise g t0 = Inr (g0, MX (MXSym i name r c))" by simp
    show ?thesis
      unfolding exitExpression_der_new [OF der operands low new entered(1) tab refl]
      using None x by simp
  next
    case (Some d0)
    show ?thesis
      unfolding exitExpression_der_known [OF der operands lowered Some]
      using Some by simp
  qed
  then obtain g1 d where g1: "exitExpression materialise other fmt g tree = Inr g1"
    and s: "src g1 (expr_node tree) = Some (MX d)"
    and d: "derivative g1 x = Some d"
    and c: "(case derivative g0 x of
                 None \<Rightarrow> d = MXSym (symbols_created g0) (''der('' @ name @ '')'') r c
                           \<and> symbols_created g1 = Suc (symbols_created g0)
               | Some d0 \<Rightarrow> d = d0 \<and> symbols_created g1 = symbols_created g0
                           \<and> derivative g1 = derivative g0)"
    by blast
  have later: "\<exists>g4. exitExpression materialise other fmt g2 tree' = Inr g4
                          \<and> src g4 (expr_node tree') = Some (MX d)
                          \<and> symbols_created g4 = symbols_created g3
                          \<and> derivative g4 = derivative g3"
    if run: "exitExpressions materialise other fmt g1 trees = Inr g2"
      and der': "normalise_op (operator_name (expr_operator tree')) = ''der''"
      and operands': "expr_operands tree' = t0' # ts'"
      and lowered': "get_mx materialise g2 t0' = Inr (g3, x)"
    for trees g2 tree' t0' ts' g3
  proof -
    have "derivative g1 \<subseteq>\<^sub>m derivative g2"
      using mat oth run by (rule exitExpressions_keeps)
    moreover have "derivative g2 \<subseteq>\<^sub>m derivative g3"
      using keeps_derivativeD [OF get_mx_keeps [OF mat] lowered'] .
    ultimately have "derivative g1 \<subseteq>\<^sub>m derivative g3" by (rule map_le_trans)
    with d have known: "derivative g3 x = Some d"
      by (metis domI map_le_def)
    show ?thesis
      unfolding exitExpression_der_known [OF der' operands' lowered' known]
      by simp
  qed
  from g1 s d c later show ?thesis by blast
qed

lemma ex_keeps: "keeps_derivative ex_materialise" "\<forall>op. keeps_derivative (\<lambda>g. ex_other_branches g op)"
  by (auto simp: keeps_derivative_def ex_materialise_def ex_other_branches_def split: if_splits)

text \<open>
  In the small generator state, two \<^verbatim>\<open>der(x)\<close> expressions (nodes 10 and 11) get the
  same symbol \<^verbatim>\<open>der(x)\<close>, and two symbols exist afterwards: \<^verbatim>\<open>x\<close> and
  \<^verbatim>\<open>der(x)\<close>.
\<close>

theorem exitExpression_der_unique_witness:
  "\<exists>g1 g2. exitExpression ex_materialise ex_other_branches ex_fmt ex_generator (ex_der 10) = Inr g1
     \<and> src g1 10 = Some (MX (MXSym 1 ''der(x)'' 1 1))
     \<and> exitExpression ex_materialise ex_other_branches ex_fmt g1 (ex_der 11) = Inr g2
     \<and> src g2 11 = Some (MX (MXSym 1 ''der(x)'' 1 1))
     \<and> symbols_created g2 = 2"
proof -
  define g0 where "g0 = ex_generator\<lparr>src := [1 \<mapsto> MX (MXSym 0 ''x'' 1 1)]\<rparr>"
  have der: "normalise_op (operator_name (expr_operator (ex_der n))) = ''der''" for n
    by (simp add: normalise_op_def operator_name_def ex_der_def)
  have operands: "expr_operands (ex_der n) = 1 # []" for n
    by (simp add: ex_der_def)
  have lowered: "get_mx ex_materialise ex_generator 1 = Inr (g0, MX (MXSym 0 ''x'' 1 1))"
    by (simp add: get_mx_def ex_materialise_def ex_generator_def g0_def)
  have entered: "entered_classes g0 \<noteq> []" "nodes g0 (last (entered_classes g0)) \<noteq> None"
    by (simp_all add: g0_def ex_generator_def)
  have new: "derivative g0 (MX (MXSym 0 ''x'' 1 1)) = None" "symbols_created g0 = 1"
    by (simp_all add: g0_def ex_generator_def)
  from exitExpression_der_unique [OF ex_keeps der operands lowered refl entered, of ex_fmt 10]
  obtain g1 d where g1: "exitExpression ex_materialise ex_other_branches ex_fmt ex_generator (ex_der 10) = Inr g1"
    and s: "src g1 (expr_node (ex_der 10)) = Some (MX d)"
    and c: "(case derivative g0 (MX (MXSym 0 ''x'' 1 1)) of
                 None \<Rightarrow> d = MXSym (symbols_created g0) (''der('' @ ''x'' @ '')'') 1 1
                           \<and> symbols_created g1 = Suc (symbols_created g0)
               | Some d0 \<Rightarrow> d = d0 \<and> symbols_created g1 = symbols_created g0
                           \<and> derivative g1 = derivative g0)"
    and later: "\<forall>trees g2 tree' t0' ts' g3.
                 exitExpressions ex_materialise ex_other_branches ex_fmt g1 trees = Inr g2
                 \<and> normalise_op (operator_name (expr_operator tree')) = ''der''
                 \<and> expr_operands tree' = t0' # ts'
                 \<and> get_mx ex_materialise g2 t0' = Inr (g3, MX (MXSym 0 ''x'' 1 1))
                 \<longrightarrow> (\<exists>g4. exitExpression ex_materialise ex_other_branches ex_fmt g2 tree' = Inr g4
                          \<and> src g4 (expr_node tree') = Some (MX d)
                          \<and> symbols_created g4 = symbols_created g3
                          \<and> derivative g4 = derivative g3)"
    by blast
  from c new have d: "d = MXSym 1 ''der(x)'' 1 1" and n1: "symbols_created g1 = 2" by simp_all
  have "src g1 1 = Some (MX (MXSym 0 ''x'' 1 1))"
    using g1 lowered
    by (auto simp: exitExpression_def Let_def ex_der_def normalise_op_def operator_name_def
          exitExpression_der_def g0_def ex_generator_def split: sum.splits prod.splits)
  then have low1: "get_mx ex_materialise g1 1 = Inr (g1, MX (MXSym 0 ''x'' 1 1))"
    by (simp add: get_mx_def)
  from later [rule_format, of "[]" g1 "ex_der 11" 1 "[]" g1] der operands low1
  obtain g4 where "exitExpression ex_materialise ex_other_branches ex_fmt g1 (ex_der 11) = Inr g4"
    "src g4 (expr_node (ex_der 11)) = Some (MX d)" "symbols_created g4 = symbols_created g1"
    by auto
  with g1 s d n1 show ?thesis
    by (auto simp: ex_der_def)
qed

section \<open>Delayed states\<close>

text \<open>
  Claim C6. For an expression \<^verbatim>\<open>delay(x, tau)\<close> whose operands lower to \<open>expr\<close> and
  \<open>delay_time\<close>: if \<open>expr\<close> is a symbol named \<open>name\<close>, \<^verbatim>\<open>exitExpression\<close> makes
  a new symbol named \<^verbatim>\<open><name>_delayed_<tau>\<close> of the same shape, appends the
  delayed state (that name, \<open>name\<close>, \<open>delay_time\<close>) to \<^verbatim>\<open>model.delayed_states\<close>,
  appends the variable of the new symbol to \<^verbatim>\<open>model.inputs\<close> and stores the symbol
  for the expression; if \<open>expr\<close> is anything else, it raises
  \<^verbatim>\<open>NotImplementedError\<close>.
\<close>

theorem exitExpression_delay_leaf:
  assumes op: "normalise_op (operator_name (expr_operator tree)) = ''delay''"
    and operands: "expr_operands tree = [t0, t1]"
    and l0: "get_mx materialise g t0 = Inr (g0, expr)"
    and l1: "get_mx materialise g0 t1 = Inr (g1, delay_time)"
  shows "exitExpression materialise other fmt g tree =
           (case expr of
              MX (MXSym i name r c) \<Rightarrow>
                Inr (g1\<lparr>symbols_created := Suc (symbols_created g1),
                        model := (model g1)
                          \<lparr>delayed_states := delayed_states (model g1) @
                             [\<lparr>delayed_name = name @ ''_delayed_'' @ fmt delay_time,
                               delayed_origin = name, delayed_time = delay_time\<rparr>],
                           inputs := inputs (model g1) @
                             [\<lparr>variable_symbol =
                                 MXSym (symbols_created g1)
                                   (name @ ''_delayed_'' @ fmt delay_time) r c\<rparr>]\<rparr>,
                        src := (src g1)(expr_node tree \<mapsto>
                                 MX (MXSym (symbols_created g1)
                                       (name @ ''_delayed_'' @ fmt delay_time) r c))\<rparr>)
            | MX (MXExpr f xs) \<Rightarrow>
                Inl (NotImplementedError
                       ''Currently, delay() is only supported with a variable as argument.'')
            | Other v \<Rightarrow>
                Inl (NotImplementedError
                       ''Currently, delay() is only supported with a variable as argument.''))"
  using assms
  by (simp add: exitExpression_def exitExpression_delay_def Let_def
           split: lowered.splits mx.splits)

text \<open>
  In the small generator state, \<^verbatim>\<open>delay\<close> of node 1 (the symbol \<^verbatim>\<open>x\<close>) makes the
  input \<^verbatim>\<open>x_delayed_0.5\<close>; \<^verbatim>\<open>delay\<close> of node 2 (no \<^verbatim>\<open>MX\<close>) raises.
\<close>

theorem exitExpression_delay_leaf_witness:
  "exitExpression ex_materialise ex_other_branches ex_fmt ex_generator (ex_delay 10 1)
     = Inr \<lparr>src = [1 \<mapsto> MX (MXSym 0 ''x'' 1 1), 2 \<mapsto> Other (),
                   10 \<mapsto> MX (MXSym 1 ''x_delayed_0.5'' 1 1)],
            nodes = [0 \<mapsto> Map.empty], derivative = Map.empty, entered_classes = [0],
            model = \<lparr>inputs = [\<lparr>variable_symbol = MXSym 1 ''x_delayed_0.5'' 1 1\<rparr>],
                     delayed_states = [\<lparr>delayed_name = ''x_delayed_0.5'', delayed_origin = ''x'',
                                         delayed_time = Other ()\<rparr>]\<rparr>,
            symbols_created = 2\<rparr>
   \<and> exitExpression ex_materialise ex_other_branches ex_fmt ex_generator (ex_delay 10 2)
     = Inl (NotImplementedError
              ''Currently, delay() is only supported with a variable as argument.'')"
proof -
  have op: "normalise_op (operator_name (expr_operator (ex_delay n t))) = ''delay''" for n t
    by (simp add: normalise_op_def operator_name_def ex_delay_def)
  have operands: "expr_operands (ex_delay n t) = [t, 2]" for n t
    by (simp add: ex_delay_def)
  define ga where "ga = ex_generator\<lparr>src := [1 \<mapsto> MX (MXSym 0 ''x'' 1 1)]\<rparr>"
  define gb where "gb = ex_generator\<lparr>src := [1 \<mapsto> MX (MXSym 0 ''x'' 1 1), 2 \<mapsto> Other ()]\<rparr>"
  define gc where "gc = ex_generator\<lparr>src := [2 \<mapsto> Other ()]\<rparr>"
  have l0: "get_mx ex_materialise ex_generator 1 = Inr (ga, MX (MXSym 0 ''x'' 1 1))"
    by (simp add: get_mx_def ex_materialise_def ex_generator_def ga_def)
  have l1: "get_mx ex_materialise ga 2 = Inr (gb, Other ())"
    by (simp add: get_mx_def ex_materialise_def ex_generator_def ga_def gb_def)
  have l2: "get_mx ex_materialise ex_generator 2 = Inr (gc, Other ())"
    by (simp add: get_mx_def ex_materialise_def ex_generator_def gc_def)
  have l3: "get_mx ex_materialise gc 2 = Inr (gc, Other ())"
    by (simp add: get_mx_def ex_materialise_def ex_generator_def gc_def)
  show ?thesis
    using exitExpression_delay_leaf [OF op operands l0 l1, of ex_other_branches ex_fmt 10]
      exitExpression_delay_leaf [OF op operands l2 l3, of ex_other_branches ex_fmt 10]
    by (simp add: gb_def ex_generator_def ex_fmt_def ex_delay_def fun_upd_twist)
qed

section \<open>If-equations keep the number of equations\<close>

lemma py_index_from_end:
  "1 \<le> j \<Longrightarrow> j \<le> length xs \<Longrightarrow> py_index xs (- int j) = Inr (xs ! (length xs - j))"
  by (simp add: py_index_def Let_def nat_diff_distrib' of_nat_diff)

lemma sum_map_Inr:
  "(\<And>x. x \<in> set xs \<Longrightarrow> f x = Inr (g x)) \<Longrightarrow> sum_map f xs = Inr (map g xs)"
  by (induction xs) simp_all

lemma branch_rows_nth:
  assumes "(j + 1) * n \<le> length rows"
  shows "branch_rows n rows j = map (\<lambda>i. rows ! (j * n + (n - 1 - i))) [0..<n]"
proof (rule nth_equalityI)
  have "j * n + n \<le> length rows" using assms by (simp add: algebra_simps)
  then show len: "length (branch_rows n rows j) = length (map (\<lambda>i. rows ! (j * n + (n - 1 - i))) [0..<n])"
    by (simp add: branch_rows_def)
  fix i assume "i < length (branch_rows n rows j)"
  with len have i: "i < n" by simp
  with \<open>j * n + n \<le> length rows\<close> show "branch_rows n rows j ! i = map (\<lambda>i. rows ! (j * n + (n - 1 - i))) [0..<n] ! i"
    by (simp add: branch_rows_def rev_nth)
qed

lemma length_branch_rows:
  "(j + 1) * n \<le> length rows \<Longrightarrow> length (branch_rows n rows j) = n"
  by (simp add: branch_rows_def algebra_simps)

lemma branch_lookup:
  assumes len: "length es = (k + 1) * n"
    and get: "\<And>e. e \<in> set es \<Longrightarrow> get e = Inr (val e)"
    and m: "m \<le> k"
  shows "sum_map (\<lambda>i. lookup_at get es (- int n * int m - (int i + 1))) [0..<n]
         = Inr (branch_rows n (map val es) (k - m))"
proof -
  have km: "(k - m) * n + n + m * n = (k + 1) * n"
  proof -
    have "(k - m) * n + n + m * n = ((k - m) + 1 + m) * n" by (simp add: algebra_simps)
    also have "(k - m) + 1 + m = k + 1" using m by simp
    finally show ?thesis .
  qed
  have each: "lookup_at get es (- int n * int m - (int i + 1))
              = Inr (map val es ! ((k - m) * n + (n - 1 - i)))" if "i \<in> set [0..<n]" for i
  proof -
    from that have i: "i < n" by simp
    let ?j = "n * m + i + 1"
    have j: "1 \<le> ?j" "?j \<le> length es"
    proof -
      show "1 \<le> ?j" by simp
      have "n * m + i + 1 \<le> n * m + n" using i by simp
      also have "\<dots> \<le> (k - m) * n + n + m * n" by (simp add: algebra_simps)
      finally show "?j \<le> length es" using km len by simp
    qed
    have idx: "- int n * int m - (int i + 1) = - int ?j" by simp
    have pos: "length es - ?j = (k - m) * n + (n - 1 - i)"
      using km len i by (simp add: algebra_simps)
    have lt: "(k - m) * n + (n - 1 - i) < length es"
      using km len i by simp
    show ?thesis
      unfolding lookup_at_def idx py_index_from_end [OF j] pos
      using lt get [of "es ! ((k - m) * n + (n - 1 - i))"] by simp
  qed
  have "(k - m + 1) * n \<le> length (map val es)"
    using km len by (simp add: algebra_simps)
  from branch_rows_nth [OF this] sum_map_Inr [of "[0..<n]" _ "\<lambda>i. map val es ! ((k - m) * n + (n - 1 - i))", OF each]
  show ?thesis by simp
qed

lemma if_chain_Cons:
  "if_chain vertcat if_else ((c, rows) # bs) er = if_else c (vertcat rows) (if_chain vertcat if_else bs er)"
  by (simp add: if_chain_def)

lemma exitIfEquation_loop:
  fixes get :: "'n \<Rightarrow> error + 'v"
  assumes lc: "length cs = k"
    and len: "length es = (k + 1) * n"
    and getc: "\<And>c. c \<in> set cs \<Longrightarrow> get c = Inr (val c)"
    and gete: "\<And>e. e \<in> set es \<Longrightarrow> get e = Inr (val e)"
    and j: "j \<le> k"
  shows "foldl (\<lambda>acc cond_index.
                  case acc of
                    Inl e \<Rightarrow> Inl e
                  | Inr src' \<Rightarrow>
                      (case lookup_at get cs (- (int cond_index + 1)) of
                         Inl e \<Rightarrow> Inl e
                       | Inr cond \<Rightarrow>
                           (case sum_map
                                   (\<lambda>i. lookup_at get es
                                          (- int n * (int cond_index + 1) - (int i + 1)))
                                   [0..<n] of
                              Inl e \<Rightarrow> Inl e
                            | Inr rows1 \<Rightarrow> Inr (if_else cond (vertcat rows1) src'))))
               (Inr (vertcat (branch_rows n (map val es) k)))
               [0..<j]
         = Inr (if_chain vertcat if_else
                  (drop (k - j) (zip (map val cs) (map (branch_rows n (map val es)) [0..<k])))
                  (branch_rows n (map val es) k))"
  using j
proof (induction j)
  case 0
  show ?case using lc by (simp add: if_chain_def)
next
  case (Suc j)
  let ?zs = "zip (map val cs) (map (branch_rows n (map val es)) [0..<k])"
  from Suc.prems have jk: "j < k" by simp
  then have IH: "foldl (\<lambda>acc cond_index.
                  case acc of
                    Inl e \<Rightarrow> Inl e
                  | Inr src' \<Rightarrow>
                      (case lookup_at get cs (- (int cond_index + 1)) of
                         Inl e \<Rightarrow> Inl e
                       | Inr cond \<Rightarrow>
                           (case sum_map
                                   (\<lambda>i. lookup_at get es
                                          (- int n * (int cond_index + 1) - (int i + 1)))
                                   [0..<n] of
                              Inl e \<Rightarrow> Inl e
                            | Inr rows1 \<Rightarrow> Inr (if_else cond (vertcat rows1) src'))))
               (Inr (vertcat (branch_rows n (map val es) k)))
               [0..<j]
         = Inr (if_chain vertcat if_else (drop (k - j) ?zs) (branch_rows n (map val es) k))"
    using Suc.IH by simp
  have pos: "k - Suc j < k" "Suc (k - Suc j) = k - j" using jk by simp_all
  have cond: "lookup_at get cs (- (int j + 1)) = Inr (val (cs ! (k - Suc j)))"
  proof -
    have idx: "- (int j + 1) = - int (j + 1)" by simp
    have pi: "py_index cs (- int (j + 1)) = Inr (cs ! (k - Suc j))"
      using py_index_from_end [of "j + 1" cs] jk lc by simp
    have mem: "cs ! (k - Suc j) \<in> set cs" using pos lc by simp
    show ?thesis
      unfolding lookup_at_def idx pi using getc [OF mem] by simp
  qed
  have rows: "sum_map (\<lambda>i. lookup_at get es (- int n * (int j + 1) - (int i + 1))) [0..<n]
              = Inr (branch_rows n (map val es) (k - Suc j))"
    using branch_lookup [OF len gete, where m = "Suc j"] jk by (simp add: algebra_simps)
  have "?zs ! (k - Suc j) = (val (cs ! (k - Suc j)), branch_rows n (map val es) (k - Suc j))"
    using pos lc by simp
  moreover have "?zs ! (k - Suc j) # drop (Suc (k - Suc j)) ?zs = drop (k - Suc j) ?zs"
    using pos lc by (intro Cons_nth_drop_Suc) simp
  ultimately have dr: "drop (k - Suc j) ?zs
      = (val (cs ! (k - Suc j)), branch_rows n (map val es) (k - Suc j)) # drop (k - j) ?zs"
    using pos by simp
  show ?case
    unfolding dr if_chain_Cons
    using cond rows by (simp add: IH)
qed

text \<open>When the equations do not divide into \<open>k + 1\<close> branches, the assertion fails.\<close>

lemma exitIfEquation_assertion:
  "length (equations tree) mod (length (conditions tree) + 1) \<noteq> 0 \<Longrightarrow>
   exitIfEquation vertcat if_else get tree = Inl AssertionError"
  by (simp add: exitIfEquation_def)

text \<open>
  Claim C5. For an if-equation with \<open>k\<close> conditions and \<open>(k + 1) * n\<close> equations
  whose nodes all have values, \<^verbatim>\<open>exitIfEquation\<close> returns the right-associated fold
  of \<^verbatim>\<open>if_else\<close> over the conditions, in their order: the first condition selects
  between the rows of the first branch and the fold for the rest, and the innermost
  alternative is the rows of the \<^verbatim>\<open>else\<close> branch. Each operand is \<^verbatim>\<open>vertcat\<close> of
  exactly \<open>n\<close> rows: the \<open>n\<close> lowered equations of that branch (last one first, in
  every branch alike).
\<close>

theorem exitIfEquation_emits_n_rows:
  fixes get :: "'n \<Rightarrow> error + 'v"
  assumes lc: "length (conditions tree) = k"
    and len: "length (equations tree) = (k + 1) * n"
    and getc: "\<forall>c \<in> set (conditions tree). get c = Inr (val c)"
    and gete: "\<forall>e \<in> set (equations tree). get e = Inr (val e)"
    and rows: "rows = map val (equations tree)"
  shows "exitIfEquation vertcat if_else get tree
         = Inr (foldr (\<lambda>(cond, branch) rest. if_else cond (vertcat branch) rest)
                  (zip (map val (conditions tree)) (map (branch_rows n rows) [0..<k]))
                  (vertcat (branch_rows n rows k)))
       \<and> (\<forall>j\<le>k. length (branch_rows n rows j) = n
                \<and> branch_rows n rows j = rev (take n (drop (j * n) rows)))"
proof -
  have len': "length (equations tree) = n * (length (conditions tree) + 1)"
    using lc len by (simp add: mult.commute)
  have epc: "length (equations tree) div (length (conditions tree) + 1) = n"
    unfolding len' by (rule div_mult_self_is_m) simp
  have md: "length (equations tree) mod (length (conditions tree) + 1) = 0"
    unfolding len' by (rule mod_mult_self2_is_0)
  have else_rows: "sum_map (\<lambda>i. lookup_at get (equations tree) (- (int i + 1))) [0..<n]
                   = Inr (branch_rows n rows k)"
    using branch_lookup [OF len, where get = get and val = val and m = 0] gete rows by simp
  have loop: "foldl (\<lambda>acc cond_index.
                  case acc of
                    Inl e \<Rightarrow> Inl e
                  | Inr src' \<Rightarrow>
                      (case lookup_at get (conditions tree) (- (int cond_index + 1)) of
                         Inl e \<Rightarrow> Inl e
                       | Inr cond \<Rightarrow>
                           (case sum_map
                                   (\<lambda>i. lookup_at get (equations tree)
                                          (- int n * (int cond_index + 1) - (int i + 1)))
                                   [0..<n] of
                              Inl e \<Rightarrow> Inl e
                            | Inr rows1 \<Rightarrow> Inr (if_else cond (vertcat rows1) src'))))
               (Inr (vertcat (branch_rows n rows k)))
               [0..<k]
         = Inr (if_chain vertcat if_else
                  (zip (map val (conditions tree)) (map (branch_rows n rows) [0..<k]))
                  (branch_rows n rows k))"
    using exitIfEquation_loop [OF lc len, where get = get and val = val and j = k
        and vertcat = vertcat and if_else = if_else] getc gete rows by simp
  have a: "exitIfEquation vertcat if_else get tree
         = Inr (foldr (\<lambda>(cond, branch) rest. if_else cond (vertcat branch) rest)
                  (zip (map val (conditions tree)) (map (branch_rows n rows) [0..<k]))
                  (vertcat (branch_rows n rows k)))"
    unfolding exitIfEquation_def Let_def epc
    using md else_rows loop lc by (simp add: if_chain_def)
  have b: "length (branch_rows n rows j) = n \<and> branch_rows n rows j = rev (take n (drop (j * n) rows))"
    if "j \<le> k" for j
  proof -
    have "(j + 1) * n \<le> (k + 1) * n" using that by simp
    then have "(j + 1) * n \<le> length rows" using len rows by simp
    then show ?thesis by (simp add: length_branch_rows) (simp add: branch_rows_def)
  qed
  from a b show ?thesis by blast
qed

text \<open>
  Two conditions and three branches of two equations: three \<^verbatim>\<open>vertcat\<close>s of two rows
  under two nested \<^verbatim>\<open>if_else\<close>.
\<close>

theorem exitIfEquation_emits_n_rows_witness:
  "exitIfEquation ex_vertcat ex_if_else (\<lambda>t. Inr (ex_residual t))
     \<lparr>conditions = [10, 11], equations = [1, 2, 3, 4, 5, 6]\<rparr>
   = Inr (ex_if_else (ex_residual 10) (ex_vertcat [ex_residual 2, ex_residual 1])
           (ex_if_else (ex_residual 11) (ex_vertcat [ex_residual 4, ex_residual 3])
              (ex_vertcat [ex_residual 6, ex_residual 5])))"
proof -
  have u: "[0..<2] = [0, 1]" by (simp add: upt_rec)
  show ?thesis
    using exitIfEquation_emits_n_rows [where tree = "\<lparr>conditions = [10, 11], equations = [1, 2, 3, 4, 5, 6]\<rparr>"
        and k = 2 and n = 2 and get = "\<lambda>t. Inr (ex_residual t)" and val = ex_residual
        and vertcat = ex_vertcat and if_else = ex_if_else, OF _ _ _ _ refl]
    by (simp add: branch_rows_def u)
qed

section \<open>Class exit partitions the symbols\<close>

lemma partition_loop:
  "foldl partition_step (states, inputs', constants, parameters) symbols
   = (states @ filter is_state symbols, inputs' @ filter is_input symbols,
      constants @ filter is_constant symbols, parameters @ filter is_parameter symbols)"
proof (induction symbols arbitrary: states inputs' constants parameters)
  case Nil
  show ?case by simp
next
  case (Cons s symbols)
  have step: "partition_step (states, inputs', constants, parameters) s
      = (states @ filter is_state [s], inputs' @ filter is_input [s],
         constants @ filter is_constant [s], parameters @ filter is_parameter [s])"
    by (simp add: partition_step_def is_state_def is_input_def is_constant_def is_parameter_def)
  have "foldl partition_step (states, inputs', constants, parameters) (s # symbols)
      = foldl partition_step (states @ filter is_state [s], inputs' @ filter is_input [s],
         constants @ filter is_constant [s], parameters @ filter is_parameter [s]) symbols"
    by (simp only: foldl_Cons step)
  also have "\<dots> = ((states @ filter is_state [s]) @ filter is_state symbols,
      (inputs' @ filter is_input [s]) @ filter is_input symbols,
      (constants @ filter is_constant [s]) @ filter is_constant symbols,
      (parameters @ filter is_parameter [s]) @ filter is_parameter symbols)"
    by (rule Cons.IH)
  finally show ?case by simp
qed

lemma split_states_loop:
  assumes "\<And>s. s \<in> set states \<Longrightarrow> get s = Inr (val s)"
  shows "split_states get table (ode_states, alg_states) states
         = Inr (ode_states @ filter (\<lambda>s. table (val s) \<noteq> None) states,
                alg_states @ filter (\<lambda>s. table (val s) = None) states)"
  using assms
proof (induction states arbitrary: ode_states alg_states)
  case Nil
  show ?case by simp
next
  case (Cons s states)
  have s: "get s = Inr (val s)" by (rule Cons.prems) simp
  have IH: "split_states get table (a, b) states
         = Inr (a @ filter (\<lambda>s. table (val s) \<noteq> None) states,
                b @ filter (\<lambda>s. table (val s) = None) states)" for a b
    by (rule Cons.IH) (simp add: Cons.prems)
  show ?case by (simp add: s IH)
qed

text \<open>
  Claim C10. For a class that is not a function, whose symbols all have values:
  \<^verbatim>\<open>symbols\<close> is the stable sort of the class's symbols by \<^verbatim>\<open>order\<close>, and each of
  the lists is a sublist of it in that order. A symbol with the prefix \<^verbatim>\<open>constant\<close>
  is a constant whatever else it has; without it, one with \<^verbatim>\<open>parameter\<close> is a
  parameter; without both, one with \<^verbatim>\<open>input\<close> is an input; a symbol with none of the
  three is a state. A state is an ODE state if the value of its symbol has an entry in
  the derivative table, and an algebraic state if it has none.
\<close>

theorem exitClass_partition_by_prefix:
  assumes nf: "class_type tree \<noteq> ''function''"
    and get: "\<forall>s \<in> set (map snd (class_symbols tree)). get s = Inr (val s)"
    and symbols: "symbols = sort_key symbol_order (map snd (class_symbols tree))"
  shows "exitClass_partition get g tree
         = Inr (Some \<lparr>part_states = filter is_state symbols,
                      part_inputs = filter is_input symbols,
                      part_constants = filter is_constant symbols,
                      part_parameters = filter is_parameter symbols,
                      part_ode_states =
                        filter (\<lambda>s. is_state s \<and> derivative g (val s) \<noteq> None) symbols,
                      part_alg_states =
                        filter (\<lambda>s. is_state s \<and> derivative g (val s) = None) symbols\<rparr>)
       \<and> sorted (map symbol_order symbols)
       \<and> set symbols = set (map snd (class_symbols tree))
       \<and> length symbols = length (class_symbols tree)
       \<and> (\<forall>k. filter (\<lambda>s. symbol_order s = k) symbols
                = filter (\<lambda>s. symbol_order s = k) (map snd (class_symbols tree)))"
proof -
  have "set (filter is_state symbols) \<subseteq> set (map snd (class_symbols tree))"
    using symbols by auto
  with get have "\<And>s. s \<in> set (filter is_state symbols) \<Longrightarrow> get s = Inr (val s)"
    by blast
  from split_states_loop [of "filter is_state symbols" get val "derivative g" "[]" "[]", OF this]
  have split: "split_states get (derivative g) ([], []) (filter is_state symbols)
      = Inr (filter (\<lambda>s. is_state s \<and> derivative g (val s) \<noteq> None) symbols,
             filter (\<lambda>s. is_state s \<and> derivative g (val s) = None) symbols)"
    by (simp add: conj_commute)
  have a: "exitClass_partition get g tree
         = Inr (Some \<lparr>part_states = filter is_state symbols,
                      part_inputs = filter is_input symbols,
                      part_constants = filter is_constant symbols,
                      part_parameters = filter is_parameter symbols,
                      part_ode_states =
                        filter (\<lambda>s. is_state s \<and> derivative g (val s) \<noteq> None) symbols,
                      part_alg_states =
                        filter (\<lambda>s. is_state s \<and> derivative g (val s) = None) symbols\<rparr>)"
    using nf split
    by (simp add: exitClass_partition_def Let_def partition_loop flip: symbols)
  have b: "sorted (map symbol_order symbols)"
    and c: "set symbols = set (map snd (class_symbols tree))"
      "length symbols = length (class_symbols tree)"
    using symbols by simp_all
  have d: "filter (\<lambda>s. symbol_order s = k) symbols
                = filter (\<lambda>s. symbol_order s = k) (map snd (class_symbols tree))" for k
    unfolding symbols by (rule sort_key_stable)
  from a b c d show ?thesis by blast
qed

text \<open>
  In the small class, \<^verbatim>\<open>c\<close> (input, parameter and constant) is a constant, \<^verbatim>\<open>p\<close>
  (input and parameter) a parameter, \<^verbatim>\<open>x\<close> the ODE state and \<^verbatim>\<open>v\<close> the algebraic
  state, each list in ascending order.
\<close>

theorem exitClass_partition_by_prefix_witness:
  "exitClass_partition (\<lambda>s. Inr (ex_symbol_value s)) ex_generator_der ex_class
   = Inr (Some \<lparr>part_states = [ex_symbol ''v'' [] 3, ex_symbol ''x'' [''output''] 4],
                part_inputs = [ex_symbol ''u'' [''input''] 2],
                part_constants = [ex_symbol ''c'' [''input'', ''parameter'', ''constant''] 0],
                part_parameters = [ex_symbol ''k'' [''parameter''] 1,
                                   ex_symbol ''p'' [''input'', ''parameter''] 5],
                part_ode_states = [ex_symbol ''x'' [''output''] 4],
                part_alg_states = [ex_symbol ''v'' [] 3]\<rparr>)"
proof -
  have sorted: "sort_key symbol_order (map snd (class_symbols ex_class))
      = [ex_symbol ''c'' [''input'', ''parameter'', ''constant''] 0,
         ex_symbol ''k'' [''parameter''] 1,
         ex_symbol ''u'' [''input''] 2,
         ex_symbol ''v'' [] 3,
         ex_symbol ''x'' [''output''] 4,
         ex_symbol ''p'' [''input'', ''parameter''] 5]"
    by (simp add: ex_class_def ex_symbol_def)
  have nf: "class_type ex_class \<noteq> ''function''" by (simp add: ex_class_def)
  show ?thesis
    using exitClass_partition_by_prefix [where tree = ex_class and get = "\<lambda>s. Inr (ex_symbol_value s)"
        and val = ex_symbol_value and g = ex_generator_der, OF nf _ refl]
    unfolding sorted
    by (simp add: is_state_def is_input_def is_constant_def is_parameter_def
          ex_symbol_def ex_symbol_value_def ex_generator_der_def)
qed

section \<open>Concatenation builds a new path and leaves its arguments alone\<close>

subsection \<open>Objects that an operation does not touch\<close>

lemma addrs_valid:
  "denotes h a t \<Longrightarrow> x \<in> addrs h a t \<Longrightarrow> x < length h"
  "denotes_list h cs ts \<Longrightarrow> x \<in> addrs_list h cs ts \<Longrightarrow> x < length h"
  by (induction h a t and h cs ts rule: denotes_denotes_list.induct) auto

lemma frame:
  "denotes h a t \<Longrightarrow> (\<And>x. x \<in> addrs h a t \<Longrightarrow> x < length h' \<and> h' ! x = h ! x) \<Longrightarrow>
     denotes h' a t \<and> addrs h' a t = addrs h a t \<and> unshared h' a t = unshared h a t
     \<and> end_addr h' a t = end_addr h a t"
  "denotes_list h cs ts \<Longrightarrow> (\<And>x. x \<in> addrs_list h cs ts \<Longrightarrow> x < length h' \<and> h' ! x = h ! x) \<Longrightarrow>
     denotes_list h' cs ts \<and> addrs_list h' cs ts = addrs_list h cs ts
     \<and> unshared_list h' cs ts = unshared_list h cs ts
     \<and> (case ts of [] \<Rightarrow> True | t # ts' \<Rightarrow> end_addr h' (hd cs) t = end_addr h (hd cs) t)"
proof (induction h a t and h cs ts rule: denotes_denotes_list.induct)
  case (1 h a n i ts)
  from "1.prems"(2) [of a] have a: "a < length h'" "h' ! a = h ! a" by simp_all
  from "1.prems"(1) have d: "denotes_list h (obj_child (h ! a)) ts" by simp
  have "denotes_list h' (obj_child (h ! a)) ts
        \<and> addrs_list h' (obj_child (h ! a)) ts = addrs_list h (obj_child (h ! a)) ts
        \<and> unshared_list h' (obj_child (h ! a)) ts = unshared_list h (obj_child (h ! a)) ts
        \<and> (case ts of [] \<Rightarrow> True
            | t # ts' \<Rightarrow> end_addr h' (hd (obj_child (h ! a))) t = end_addr h (hd (obj_child (h ! a))) t)"
    by (rule "1.IH" [OF d]) (simp add: "1.prems"(2))
  with a "1.prems"(1) show ?case by (auto split: list.splits)
next
  case (2 h)
  show ?case by simp
next
  case (3 h c cs t ts)
  from "3.prems"(1) have d: "denotes h c t" "denotes_list h cs ts" by simp_all
  have "denotes h' c t \<and> addrs h' c t = addrs h c t \<and> unshared h' c t = unshared h c t
        \<and> end_addr h' c t = end_addr h c t"
    by (rule "3.IH"(1) [OF d(1)]) (simp add: "3.prems"(2))
  moreover
  have "denotes_list h' cs ts \<and> addrs_list h' cs ts = addrs_list h cs ts
        \<and> unshared_list h' cs ts = unshared_list h cs ts
        \<and> (case ts of [] \<Rightarrow> True | t # ts' \<Rightarrow> end_addr h' (hd cs) t = end_addr h (hd cs) t)"
    by (rule "3.IH"(2) [OF d(2)]) (simp add: "3.prems"(2))
  ultimately show ?case by simp
next
  case (4 h t ts)
  then show ?case by simp
next
  case (5 h c cs)
  then show ?case by simp
qed

lemma frame_append:
  "denotes h a t \<Longrightarrow>
     denotes (h @ ys) a t \<and> addrs (h @ ys) a t = addrs h a t
     \<and> unshared (h @ ys) a t = unshared h a t \<and> end_addr (h @ ys) a t = end_addr h a t"
  by (rule frame(1)) (auto dest: addrs_valid(1) simp: nth_append)

lemma frame_list_append:
  assumes "denotes_list h cs ts"
  shows "denotes_list (h @ ys) cs ts \<and> addrs_list (h @ ys) cs ts = addrs_list h cs ts
     \<and> unshared_list (h @ ys) cs ts = unshared_list h cs ts"
proof -
  have "x < length (h @ ys) \<and> (h @ ys) ! x = h ! x" if x: "x \<in> addrs_list h cs ts" for x
    using addrs_valid(2) [OF assms x] by (simp add: nth_append)
  from frame(2) [OF assms this] show ?thesis by simp
qed

lemma frame_update:
  assumes "denotes h a t" and "e \<notin> addrs h a t"
  shows "denotes (h[e := v]) a t \<and> addrs (h[e := v]) a t = addrs h a t
     \<and> unshared (h[e := v]) a t = unshared h a t \<and> end_addr (h[e := v]) a t = end_addr h a t"
proof (rule frame(1) [OF assms(1)])
  fix x assume x: "x \<in> addrs h a t"
  with assms(2) have "x \<noteq> e" by auto
  with addrs_valid(1) [OF assms(1) x] show "x < length (h[e := v]) \<and> h[e := v] ! x = h ! x"
    by simp
qed

lemma frame_list_update:
  assumes "denotes_list h cs ts" and "e \<notin> addrs_list h cs ts"
  shows "denotes_list (h[e := v]) cs ts \<and> addrs_list (h[e := v]) cs ts = addrs_list h cs ts
     \<and> unshared_list (h[e := v]) cs ts = unshared_list h cs ts"
proof -
  have "x < length (h[e := v]) \<and> h[e := v] ! x = h ! x" if x: "x \<in> addrs_list h cs ts" for x
  proof -
    from x assms(2) have "x \<noteq> e" by auto
    with addrs_valid(2) [OF assms(1) x] show ?thesis by simp
  qed
  from frame(2) [OF assms(1) this] show ?thesis by simp
qed

subsection \<open>Deep copies\<close>

lemma extends_append: "take (length h) h' = h \<Longrightarrow> length h \<le> length h' \<Longrightarrow> \<exists>ys. h' = h @ ys"
  by (metis append_take_drop_id)

lemma height_member: "t \<in> set ts \<Longrightarrow> cref_height t \<le> foldr max (map cref_height ts) 0"
  by (induction ts) auto

lemma deepcopy_list_correct:
  assumes IH: "\<And>t h m a. t \<in> set ts \<Longrightarrow> denotes h a t \<Longrightarrow> unshared h a t \<Longrightarrow>
                 addrs h a t \<inter> dom m = {} \<Longrightarrow> cref_height t \<le> fuel \<Longrightarrow>
                 \<exists>h' m' a'. deepcopy fuel h m a = Some (h', m', a') \<and> fresh_copy h h' a' t
                           \<and> dom m' = dom m \<union> addrs h a t"
  shows "denotes_list h cs ts \<Longrightarrow> unshared_list h cs ts \<Longrightarrow> addrs_list h cs ts \<inter> dom m = {} \<Longrightarrow>
         \<forall>t\<in>set ts. cref_height t \<le> fuel \<Longrightarrow>
         \<exists>h' m' cs'. deepcopy_list fuel h m cs = Some (h', m', cs') \<and> fresh_copies h h' cs' ts
                    \<and> dom m' = dom m \<union> addrs_list h cs ts"
  using IH
proof (induction ts arbitrary: h m cs)
  case Nil
  then have "cs = []" by (cases cs) simp_all
  then show ?case by (simp add: fresh_copies_def)
next
  case (Cons t ts)
  from Cons.prems(1) obtain c cs0 where cs: "cs = c # cs0" and dc: "denotes h c t"
    and dcs: "denotes_list h cs0 ts"
    by (cases cs) simp_all
  from Cons.prems(2) cs have uc: "unshared h c t" and ucs: "unshared_list h cs0 ts"
    and sib: "addrs h c t \<inter> addrs_list h cs0 ts = {}"
    by simp_all
  from Cons.prems(3) cs have mc: "addrs h c t \<inter> dom m = {}"
    and mcs: "addrs_list h cs0 ts \<inter> dom m = {}"
    by auto
  from Cons.prems(5) [of t h c m] dc uc mc Cons.prems(4)
  obtain h1 m1 c' where c1: "deepcopy fuel h m c = Some (h1, m1, c')"
    and f1: "fresh_copy h h1 c' t" and dm1: "dom m1 = dom m \<union> addrs h c t"
    by auto
  from f1 have "take (length h) h1 = h" "length h \<le> length h1"
    by (simp_all add: fresh_copy_def)
  then obtain ys1 where h1: "h1 = h @ ys1"
    using extends_append [of h h1] by blast
  from frame_list_append [OF dcs, of ys1] h1 ucs
  have dcs1: "denotes_list h1 cs0 ts" and ucs1: "unshared_list h1 cs0 ts"
    and acs1: "addrs_list h1 cs0 ts = addrs_list h cs0 ts"
    by simp_all
  have mcs1: "addrs_list h1 cs0 ts \<inter> dom m1 = {}"
    using acs1 dm1 mcs sib by auto
  have "\<exists>h' m' cs'. deepcopy_list fuel h1 m1 cs0 = Some (h', m', cs') \<and> fresh_copies h1 h' cs' ts
          \<and> dom m' = dom m1 \<union> addrs_list h1 cs0 ts"
    by (rule Cons.IH [OF dcs1 ucs1 mcs1]) (use Cons.prems in auto)
  then obtain h2 m2 cs' where c2: "deepcopy_list fuel h1 m1 cs0 = Some (h2, m2, cs')"
    and f2: "fresh_copies h1 h2 cs' ts" and dm2: "dom m2 = dom m1 \<union> addrs_list h1 cs0 ts"
    by blast
  from f2 have "take (length h1) h2 = h1" "length h1 \<le> length h2"
    by (simp_all add: fresh_copies_def)
  then obtain ys2 where h2: "h2 = h1 @ ys2"
    using extends_append [of h1 h2] by blast
  from f1 have d1: "denotes h1 c' t" "unshared h1 c' t" "addrs h1 c' t \<subseteq> {length h..<length h1}"
    by (simp_all add: fresh_copy_def)
  from frame_append [OF d1(1), of ys2] h2 d1
  have d1': "denotes h2 c' t" "unshared h2 c' t" "addrs h2 c' t \<subseteq> {length h..<length h1}"
    by simp_all
  from f2 have d2: "denotes_list h2 cs' ts" "unshared_list h2 cs' ts"
    "addrs_list h2 cs' ts \<subseteq> {length h1..<length h2}"
    by (simp_all add: fresh_copies_def)
  have disj: "addrs h2 c' t \<inter> addrs_list h2 cs' ts = {}"
    using d1'(3) d2(3) by fastforce
  have len: "length h \<le> length h1" "length h1 \<le> length h2" using h1 h2 by simp_all
  have "fresh_copies h h2 (c' # cs') (t # ts)"
    unfolding fresh_copies_def
    using d1' d2 disj len h1 h2 by (auto simp: subset_iff)
  moreover have "dom m2 = dom m \<union> addrs_list h cs (t # ts)"
    using dm2 dm1 acs1 cs by auto
  ultimately show ?case using c1 c2 cs by simp
qed

lemma deepcopy_correct:
  "denotes h a t \<Longrightarrow> unshared h a t \<Longrightarrow> addrs h a t \<inter> dom m = {} \<Longrightarrow> cref_height t \<le> fuel \<Longrightarrow>
   \<exists>h' m' a'. deepcopy fuel h m a = Some (h', m', a') \<and> fresh_copy h h' a' t
             \<and> dom m' = dom m \<union> addrs h a t"
proof (induction t arbitrary: h m a fuel)
  case (ComponentRef n i ts)
  from ComponentRef.prems(4) obtain f where fuel: "fuel = Suc f"
    and hts: "foldr max (map cref_height ts) 0 \<le> f"
    by (cases fuel) simp_all
  from ComponentRef.prems(1) have a: "a < length h" "obj_name (h ! a) = n" "obj_indices (h ! a) = i"
    and dl: "denotes_list h (obj_child (h ! a)) ts"
    by simp_all
  from ComponentRef.prems(2) have ua: "a \<notin> addrs_list h (obj_child (h ! a)) ts"
    and ul: "unshared_list h (obj_child (h ! a)) ts"
    by simp_all
  from ComponentRef.prems(3) have ma: "m a = None"
    and ml: "addrs_list h (obj_child (h ! a)) ts \<inter> dom m = {}"
    by auto
  have hs: "\<forall>t\<in>set ts. cref_height t \<le> f"
    using height_member hts by (meson le_trans)
  let ?blank = "\<lparr>obj_name = [], obj_indices = ([] :: 'a list), obj_child = []\<rparr>"
  let ?h0 = "h @ [?blank]"
  let ?m0 = "m(a \<mapsto> length h)"
  from frame_list_append [OF dl, of "[?blank]"] ul
  have dl0: "denotes_list ?h0 (obj_child (h ! a)) ts"
    and al0: "addrs_list ?h0 (obj_child (h ! a)) ts = addrs_list h (obj_child (h ! a)) ts"
    and ul0: "unshared_list ?h0 (obj_child (h ! a)) ts"
    by simp_all
  have ml0: "addrs_list ?h0 (obj_child (h ! a)) ts \<inter> dom ?m0 = {}"
    using al0 ml ua by auto
  have "\<exists>h' m' cs'. deepcopy_list f ?h0 ?m0 (obj_child (h ! a)) = Some (h', m', cs')
          \<and> fresh_copies ?h0 h' cs' ts
          \<and> dom m' = dom ?m0 \<union> addrs_list ?h0 (obj_child (h ! a)) ts"
    by (rule deepcopy_list_correct [OF _ dl0 ul0 ml0 hs]) (rule ComponentRef.IH)
  then obtain h1 m1 cs' where c: "deepcopy_list f ?h0 ?m0 (obj_child (h ! a)) = Some (h1, m1, cs')"
    and f1: "fresh_copies ?h0 h1 cs' ts"
    and dm1: "dom m1 = dom ?m0 \<union> addrs_list ?h0 (obj_child (h ! a)) ts"
    by blast
  let ?obj = "(h ! a)\<lparr>obj_child := cs'\<rparr>"
  let ?h2 = "h1[length h := ?obj]"
  from f1 have d: "take (Suc (length h)) h1 = ?h0" "Suc (length h) \<le> length h1"
    "denotes_list h1 cs' ts" "unshared_list h1 cs' ts"
    "addrs_list h1 cs' ts \<subseteq> {Suc (length h)..<length h1}"
    by (simp_all add: fresh_copies_def)
  have keep: "take (length h) h1 = h"
  proof -
    have "take (length h) h1 = take (length h) (take (Suc (length h)) h1)" by simp
    also have "\<dots> = h" unfolding d(1) by simp
    finally show ?thesis .
  qed
  have notin: "length h \<notin> addrs_list h1 cs' ts" using d(5) by auto
  from frame_list_update [OF d(3) notin, of ?obj] d(4)
  have d2: "denotes_list ?h2 cs' ts" "addrs_list ?h2 cs' ts = addrs_list h1 cs' ts"
    "unshared_list ?h2 cs' ts" by simp_all
  have root: "?h2 ! length h = ?obj" using d(2) by simp
  have "fresh_copy h ?h2 (length h) (ComponentRef n i ts)"
    unfolding fresh_copy_def
    using a d d2 keep root notin by (auto simp: subset_iff)
  moreover have "dom m1 = dom m \<union> addrs h a (ComponentRef n i ts)"
    using dm1 al0 by auto
  ultimately show ?case using c a fuel ma by (simp add: Let_def)
qed

subsection \<open>The walk to the deepest child, and the assignment there\<close>

lemma denotes_list_Nil: "denotes_list h cs [] \<longleftrightarrow> cs = []"
  by (cases cs) simp_all

lemma denotes_list_Cons:
  "denotes_list h cs (t # ts) \<longleftrightarrow> (\<exists>c cs'. cs = c # cs' \<and> denotes h c t \<and> denotes_list h cs' ts)"
  by (cases cs) simp_all

lemma spine_le_height: "length (to_tuple t) \<le> cref_height t"
  by (induction t rule: to_tuple.induct) (auto split: list.splits)

lemma end_addr_props:
  "denotes h a t \<Longrightarrow> end_addr h a t \<in> addrs h a t \<and> obj_child (h ! end_addr h a t) = []"
proof (induction t arbitrary: a)
  case (ComponentRef n i ts)
  show ?case
  proof (cases ts)
    case Nil
    with ComponentRef.prems show ?thesis by (simp add: denotes_list_Nil)
  next
    case (Cons t1 ts')
    with ComponentRef.prems obtain c cs where ch: "obj_child (h ! a) = c # cs"
      and d: "denotes h c t1" by (auto simp: denotes_list_Cons)
    from ComponentRef.IH [of t1 c] Cons d
    have "end_addr h c t1 \<in> addrs h c t1 \<and> obj_child (h ! end_addr h c t1) = []" by simp
    with Cons ch show ?thesis by simp
  qed
qed

lemma deepest_correct:
  "denotes h a t \<Longrightarrow> length (to_tuple t) \<le> fuel \<Longrightarrow> deepest fuel h a = Some (end_addr h a t)"
proof (induction t arbitrary: a fuel)
  case (ComponentRef n i ts)
  from ComponentRef.prems(1) have a: "a < length h" by simp
  show ?case
  proof (cases ts)
    case Nil
    with ComponentRef.prems obtain f where "fuel = Suc f" by (cases fuel) simp_all
    with Nil ComponentRef.prems(1) a show ?thesis by (simp add: denotes_list_Nil)
  next
    case (Cons t1 ts')
    with ComponentRef.prems(1) obtain c cs where ch: "obj_child (h ! a) = c # cs"
      and d: "denotes h c t1" by (auto simp: denotes_list_Cons)
    from ComponentRef.prems(2) Cons obtain f where f: "fuel = Suc f" "length (to_tuple t1) \<le> f"
      by (cases fuel) simp_all
    from ComponentRef.IH [of t1 c f] Cons d f
    have "deepest f h c = Some (end_addr h c t1)" by simp
    with Cons ch a f show ?thesis by simp
  qed
qed

lemma attach_correct:
  assumes "denotes h a ta" and "unshared h a ta"
    and b: "denotes h b tb" "unshared h b tb"
    and "addrs h a ta \<inter> addrs h b tb = {}"
    and "e = end_addr h a ta"
  shows "denotes (h[e := (h ! e)\<lparr>obj_child := [b]\<rparr>]) a (set_deepest_child ta tb)
       \<and> unshared (h[e := (h ! e)\<lparr>obj_child := [b]\<rparr>]) a (set_deepest_child ta tb)
       \<and> addrs (h[e := (h ! e)\<lparr>obj_child := [b]\<rparr>]) a (set_deepest_child ta tb)
           = addrs h a ta \<union> addrs h b tb
       \<and> end_addr (h[e := (h ! e)\<lparr>obj_child := [b]\<rparr>]) a (set_deepest_child ta tb)
           = end_addr h b tb"
  using assms(1,2,5,6)
proof (induction ta arbitrary: a)
  case (ComponentRef n i ts)
  let ?h2 = "h[e := (h ! e)\<lparr>obj_child := [b]\<rparr>]"
  from ComponentRef.prems(1) have a: "a < length h" "obj_name (h ! a) = n" "obj_indices (h ! a) = i"
    and dl: "denotes_list h (obj_child (h ! a)) ts" by simp_all
  from ComponentRef.prems(3) have anb: "a \<notin> addrs h b tb" by auto
  show ?case
  proof (cases ts)
    case Nil
    with ComponentRef.prems(4) have e: "e = a" by simp
    from frame_update [OF b(1) anb, of "(h ! a)\<lparr>obj_child := [b]\<rparr>"] b(2)
    have fb: "denotes (h[a := (h ! a)\<lparr>obj_child := [b]\<rparr>]) b tb"
      "addrs (h[a := (h ! a)\<lparr>obj_child := [b]\<rparr>]) b tb = addrs h b tb"
      "unshared (h[a := (h ! a)\<lparr>obj_child := [b]\<rparr>]) b tb"
      "end_addr (h[a := (h ! a)\<lparr>obj_child := [b]\<rparr>]) b tb = end_addr h b tb"
      by simp_all
    from Nil dl have "obj_child (h ! a) = []" by (simp add: denotes_list_Nil)
    with Nil e a fb anb show ?thesis by simp
  next
    case (Cons t1 ts')
    with dl obtain c cs where ch: "obj_child (h ! a) = c # cs"
      and d1: "denotes h c t1" and ds: "denotes_list h cs ts'"
      by (auto simp: denotes_list_Cons)
    from ComponentRef.prems(2) Cons ch
    have u: "a \<notin> addrs h c t1" "a \<notin> addrs_list h cs ts'" "unshared h c t1"
      "unshared_list h cs ts'" "addrs h c t1 \<inter> addrs_list h cs ts' = {}"
      by auto
    from ComponentRef.prems(4) Cons ch have e: "e = end_addr h c t1" by simp
    with end_addr_props [OF d1] have ein: "e \<in> addrs h c t1" by simp
    with u have ea: "e \<noteq> a" and ens: "e \<notin> addrs_list h cs ts'" by auto
    from ComponentRef.prems(3) Cons ch have disj1: "addrs h c t1 \<inter> addrs h b tb = {}"
      and disj2: "addrs_list h cs ts' \<inter> addrs h b tb = {}" by auto
    have IH: "denotes ?h2 c (set_deepest_child t1 tb)
       \<and> unshared ?h2 c (set_deepest_child t1 tb)
       \<and> addrs ?h2 c (set_deepest_child t1 tb) = addrs h c t1 \<union> addrs h b tb
       \<and> end_addr ?h2 c (set_deepest_child t1 tb) = end_addr h b tb"
      by (rule ComponentRef.IH [OF _ d1 u(3) disj1 e]) (simp add: Cons)
    from frame_list_update [OF ds ens, of "(h ! e)\<lparr>obj_child := [b]\<rparr>"] u(4)
    have fs: "denotes_list ?h2 cs ts'" "addrs_list ?h2 cs ts' = addrs_list h cs ts'"
      "unshared_list ?h2 cs ts'" by simp_all
    have ha: "?h2 ! a = h ! a" using ea by simp
    have "set_deepest_child (ComponentRef n i ts) tb
          = ComponentRef n i (set_deepest_child t1 tb # ts')"
      using Cons by simp
    moreover have "(addrs h c t1 \<union> addrs h b tb) \<inter> addrs_list h cs ts' = {}"
      using u(5) disj2 by auto
    ultimately show ?thesis
      using a ha ch IH fs u anb Cons by (simp add: Un_assoc Un_commute Un_left_commute)
  qed
qed

subsection \<open>The loop and the result\<close>

lemma to_tuple_foldl_set_deepest_child:
  "to_tuple (foldl set_deepest_child t ts) = to_tuple t @ concat (map to_tuple ts)"
  by (induction ts arbitrary: t) (simp_all add: to_tuple_set_deepest_child)

lemma concatenate_loop_correct:
  assumes "\<forall>t\<in>set ts. cref_height t < fuel"
    and "list_all2 (unshared h0) bs ts"
  shows "denotes_list h0 bs ts \<Longrightarrow> take (length h0) h = h0 \<Longrightarrow> length h0 \<le> length h \<Longrightarrow>
         denotes h a t \<Longrightarrow> unshared h a t \<Longrightarrow> addrs h a t \<subseteq> {length h0..<length h} \<Longrightarrow>
         deepest fuel h n = Some (end_addr h a t) \<Longrightarrow>
         \<exists>h'. concatenate_loop fuel h n bs = Some h' \<and> take (length h0) h' = h0
              \<and> length h0 \<le> length h'
              \<and> denotes h' a (foldl set_deepest_child t ts)
              \<and> unshared h' a (foldl set_deepest_child t ts)
              \<and> addrs h' a (foldl set_deepest_child t ts) \<subseteq> {length h0..<length h'}"
  using assms
proof (induction ts arbitrary: bs h t n)
  case Nil
  then have "bs = []" by (simp add: denotes_list_Nil)
  with Nil show ?case by simp
next
  case (Cons tb ts)
  from Cons.prems(1) obtain b bs' where bs: "bs = b # bs'" and db0: "denotes h0 b tb"
    and dbs: "denotes_list h0 bs' ts" by (auto simp: denotes_list_Cons)
  from Cons.prems(8) have fuel: "cref_height tb < fuel" and fuels: "\<forall>t\<in>set ts. cref_height t < fuel"
    by simp_all
  from Cons.prems(9) bs have ub0: "unshared h0 b tb" and ubs: "list_all2 (unshared h0) bs' ts"
    by simp_all
  let ?e = "end_addr h a t"
  obtain ys where h: "h = h0 @ ys"
    using extends_append [OF Cons.prems(2,3)] by blast
  from frame_append [OF db0, of ys] h ub0 have db: "denotes h b tb" and ub: "unshared h b tb"
    by simp_all
  from deepcopy_correct [OF db ub, of Map.empty fuel] fuel
  obtain h1 m1 b' where c: "deepcopy fuel h Map.empty b = Some (h1, m1, b')"
    and fc: "fresh_copy h h1 b' tb"
    by auto
  from fc have f1: "take (length h) h1 = h" "length h \<le> length h1" "denotes h1 b' tb"
    "unshared h1 b' tb" "addrs h1 b' tb \<subseteq> {length h..<length h1}"
    by (simp_all add: fresh_copy_def)
  obtain ys1 where h1: "h1 = h @ ys1"
    using extends_append [OF f1(1,2)] by blast
  from frame_append [OF Cons.prems(4), of ys1] h1 Cons.prems(5)
  have a1: "denotes h1 a t" "addrs h1 a t = addrs h a t" "unshared h1 a t"
    "end_addr h1 a t = ?e" by simp_all
  have disj: "addrs h1 a t \<inter> addrs h1 b' tb = {}"
    using a1(2) Cons.prems(6) f1(5) by fastforce
  let ?h2 = "h1[?e := (h1 ! ?e)\<lparr>obj_child := [b']\<rparr>]"
  from attach_correct [OF a1(1) a1(3) f1(3) f1(4) disj, of ?e] a1(4)
  have at: "denotes ?h2 a (set_deepest_child t tb)" "unshared ?h2 a (set_deepest_child t tb)"
    "addrs ?h2 a (set_deepest_child t tb) = addrs h1 a t \<union> addrs h1 b' tb"
    "end_addr ?h2 a (set_deepest_child t tb) = end_addr h1 b' tb"
    by simp_all
  from end_addr_props [OF Cons.prems(4)] have ein: "?e \<in> addrs h a t" by simp
  with Cons.prems(6) have e_ge: "length h0 \<le> ?e" and e_lt: "?e < length h" by auto
  have t2: "take (length h0) ?h2 = h0"
    using e_ge h1 h by simp
  have l2: "length h0 \<le> length ?h2" using h1 h by simp
  have sub2: "addrs ?h2 a (set_deepest_child t tb) \<subseteq> {length h0..<length ?h2}"
    using at(3) a1(2) Cons.prems(6) f1(5) f1(2) Cons.prems(3) by fastforce
  have enb: "?e \<notin> addrs h1 b' tb" using ein a1(2) disj by auto
  from frame_update [OF f1(3) enb, of "(h1 ! ?e)\<lparr>obj_child := [b']\<rparr>"]
  have b2: "denotes ?h2 b' tb" "end_addr ?h2 b' tb = end_addr h1 b' tb" by simp_all
  from fuel obtain f where f: "fuel = Suc f" "cref_height tb \<le> f" by (cases fuel) simp_all
  have "length (to_tuple tb) \<le> f" using spine_le_height [of tb] f(2) by simp
  from deepest_correct [OF b2(1) this] have "deepest f ?h2 b' = Some (end_addr h1 b' tb)"
    using b2(2) by simp
  moreover have "?e < length ?h2" using e_lt h1 by simp
  moreover have "obj_child (?h2 ! ?e) = [b']" using e_lt h1 by simp
  ultimately have cur: "deepest fuel ?h2 ?e = Some (end_addr ?h2 a (set_deepest_child t tb))"
    using f(1) at(4) by simp
  from Cons.IH [OF dbs t2 l2 at(1) at(2) sub2 cur fuels ubs]
  obtain h' where r: "concatenate_loop fuel ?h2 ?e bs' = Some h'" "take (length h0) h' = h0"
    "length h0 \<le> length h'"
    "denotes h' a (foldl set_deepest_child (set_deepest_child t tb) ts)"
    "unshared h' a (foldl set_deepest_child (set_deepest_child t tb) ts)"
    "addrs h' a (foldl set_deepest_child (set_deepest_child t tb) ts) \<subseteq> {length h0..<length h'}"
    by blast
  from r bs c Cons.prems(7) show ?case by simp
qed

lemma denotes_unique:
  "denotes h a t \<Longrightarrow> denotes h a t' \<Longrightarrow> t = t'"
  "denotes_list h cs ts \<Longrightarrow> denotes_list h cs ts' \<Longrightarrow> ts = ts'"
proof (induction h a t and h cs ts arbitrary: t' and ts' rule: denotes_denotes_list.induct)
  case (1 h a n i ts)
  then show ?case by (cases t') auto
next
  case (2 h)
  then show ?case by (cases ts') simp_all
next
  case (3 h c cs t ts)
  then show ?case by (cases ts') auto
next
  case (4 h t ts)
  then show ?case by simp
next
  case (5 h c cs)
  then show ?case by simp
qed

lemma addrs_denote:
  "denotes h a t \<Longrightarrow> x \<in> addrs h a t \<Longrightarrow> \<exists>t'. denotes h x t' \<and> cref_height t' \<le> cref_height t"
  "denotes_list h cs ts \<Longrightarrow> x \<in> addrs_list h cs ts \<Longrightarrow>
     \<exists>t'. denotes h x t' \<and> cref_height t' \<le> foldr max (map cref_height ts) 0"
proof (induction h a t and h cs ts rule: denotes_denotes_list.induct)
  case (1 h a n i ts)
  show ?case
  proof (cases "x = a")
    case True
    with "1.prems"(1) show ?thesis by blast
  next
    case False
    with "1.prems" have "denotes_list h (obj_child (h ! a)) ts"
      "x \<in> addrs_list h (obj_child (h ! a)) ts" by simp_all
    from "1.IH" [OF this] show ?thesis by auto
  qed
next
  case (3 h c cs t ts)
  from "3.prems" consider "x \<in> addrs h c t" | "x \<in> addrs_list h cs ts" by auto
  then show ?case
  proof cases
    case 1
    with "3.IH"(1) "3.prems"(1) show ?thesis by fastforce
  next
    case 2
    with "3.IH"(2) "3.prems"(1) show ?thesis by fastforce
  qed
qed simp_all

text \<open>
  An object is not among its own descendants when it denotes a reference. So a reference
  whose \<^verbatim>\<open>child\<close> lists are empty or singleton, as the parser builds them, shares no
  object.
\<close>

lemma denotes_acyclic:
  assumes "denotes h a (ComponentRef n i ts)"
  shows "a \<notin> addrs_list h (obj_child (h ! a)) ts"
proof
  assume "a \<in> addrs_list h (obj_child (h ! a)) ts"
  moreover from assms have "denotes_list h (obj_child (h ! a)) ts" by simp
  ultimately obtain t' where t': "denotes h a t'"
    "cref_height t' \<le> foldr max (map cref_height ts) 0"
    using addrs_denote(2) by blast
  from denotes_unique(1) [OF t'(1) assms] t'(2) show False by simp
qed

lemma single_child_unshared:
  "denotes h a t \<Longrightarrow> single_child t \<Longrightarrow> unshared h a t"
proof (induction t arbitrary: a)
  case (ComponentRef n i ts)
  note acyc = denotes_acyclic [OF ComponentRef.prems(1)]
  show ?case
  proof (cases ts)
    case Nil
    with ComponentRef.prems(1) show ?thesis by (simp add: denotes_list_Nil)
  next
    case (Cons t1 ts')
    with ComponentRef.prems(2) have ts': "ts' = []" and s1: "single_child t1"
      by (simp_all split: list.splits)
    from ComponentRef.prems(1) Cons ts' obtain c where ch: "obj_child (h ! a) = [c]"
      and d1: "denotes h c t1"
      by (auto simp: denotes_list_Cons denotes_list_Nil)
    from ComponentRef.IH [of t1 c] Cons d1 s1 have "unshared h c t1" by simp
    with acyc Cons ts' ch show ?thesis by simp
  qed
qed

text \<open>
  Claim C9. Let the arguments, at least one, be objects of the store \<open>h\<close> that denote
  the references \<open>ts\<close>, none of them with an object that it reaches along two paths, and
  let the fuel exceed their heights. Then \<^verbatim>\<open>concatenate\<close> returns; every object of
  \<open>h\<close> is in the store afterwards as it was, so the arguments still denote \<open>ts\<close>; the
  result denotes the reference \<open>t\<close> that \<open>concatenate\<close> computes on the values, and is
  made of new objects only, none of them shared; and the tuple of \<open>t\<close> is the
  concatenation of the tuples of \<open>ts\<close>. The same object may be passed as two arguments.
\<close>

theorem concatenate_store_copies:
  assumes args: "denotes_list h args ts"
    and unshared_args: "list_all2 (unshared h) args ts"
    and nonempty: "args \<noteq> []"
    and fuel: "\<forall>t\<in>set ts. cref_height t < fuel"
  shows "\<exists>h' r t. concatenate_store fuel h args = Some (Inr (h', r))
           \<and> take (length h) h' = h
           \<and> denotes_list h' args ts
           \<and> concatenate ts = Inr t
           \<and> denotes h' r t
           \<and> unshared h' r t
           \<and> addrs h' r t \<subseteq> {length h..<length h'}
           \<and> to_tuple t = concat (map to_tuple ts)"
proof -
  from nonempty args obtain a0 bs t0 ts' where a: "args = a0 # bs" and t: "ts = t0 # ts'"
    and d0: "denotes h a0 t0" and ds: "denotes_list h bs ts'"
    by (cases args; cases ts) auto
  from unshared_args a t have u0: "unshared h a0 t0" and us: "list_all2 (unshared h) bs ts'"
    by simp_all
  from fuel t have f0: "cref_height t0 < fuel" and fs: "\<forall>t\<in>set ts'. cref_height t < fuel"
    by simp_all
  from deepcopy_correct [OF d0 u0, of Map.empty fuel] f0
  obtain h1 m1 r where c: "deepcopy fuel h Map.empty a0 = Some (h1, m1, r)"
    and fc: "fresh_copy h h1 r t0"
    by auto
  from fc have f1: "take (length h) h1 = h" "length h \<le> length h1" "denotes h1 r t0"
    "unshared h1 r t0" "addrs h1 r t0 \<subseteq> {length h..<length h1}"
    by (simp_all add: fresh_copy_def)
  have "length (to_tuple t0) \<le> fuel" using spine_le_height [of t0] f0 by simp
  from deepest_correct [OF f1(3) this] have cur: "deepest fuel h1 r = Some (end_addr h1 r t0)" .
  from concatenate_loop_correct [OF fs us ds f1(1) f1(2) f1(3) f1(4) f1(5) cur]
  obtain h' where r: "concatenate_loop fuel h1 r bs = Some h'" "take (length h) h' = h"
    "length h \<le> length h'"
    "denotes h' r (foldl set_deepest_child t0 ts')"
    "unshared h' r (foldl set_deepest_child t0 ts')"
    "addrs h' r (foldl set_deepest_child t0 ts') \<subseteq> {length h..<length h'}"
    by blast
  obtain ys where h': "h' = h @ ys"
    using extends_append [OF r(2,3)] by blast
  from frame_list_append [OF args, of ys] h' have keep: "denotes_list h' args ts" by simp
  have conc: "concatenate ts = Inr (foldl set_deepest_child t0 ts')"
    using t by (simp add: concatenate_def)
  have tup: "to_tuple (foldl set_deepest_child t0 ts') = concat (map to_tuple ts)"
    using t by (simp add: to_tuple_foldl_set_deepest_child)
  have "concatenate_store fuel h args = Some (Inr (h', r))"
    using a c r(1) by (simp add: concatenate_store_def)
  with r keep conc tup show ?thesis by blast
qed

text \<open>
  The store after concatenating \<^verbatim>\<open>a.b\<close> and \<^verbatim>\<open>c\<close> in the small store: the copies
  of \<^verbatim>\<open>a\<close>, \<^verbatim>\<open>b\<close> and \<^verbatim>\<open>c\<close> at the addresses 3, 4 and 5, the copy of
  \<^verbatim>\<open>c\<close> assigned to the copy of \<^verbatim>\<open>b\<close>.
\<close>

lemma ex_store_concatenate:
  "concatenate_store 3 ex_store [0, 2]
   = Some (Inr (ex_store @
                  [\<lparr>obj_name = ''a'', obj_indices = [()], obj_child = [4]\<rparr>,
                   \<lparr>obj_name = ''b'', obj_indices = [], obj_child = [5]\<rparr>,
                   \<lparr>obj_name = ''c'', obj_indices = [], obj_child = []\<rparr>], 3))"
  by (simp add: concatenate_store_def ex_store_def numeral_3_eq_3 Let_def)

text \<open>
  An argument that holds the same object twice: \<^verbatim>\<open>a\<close> with the children
  \<^verbatim>\<open>[b, b]\<close>, concatenated with \<^verbatim>\<open>c\<close>. The copy of \<^verbatim>\<open>a\<close> holds the one copy of
  \<^verbatim>\<open>b\<close> twice, and that copy gets \<^verbatim>\<open>c\<close> as its child.
\<close>

lemma ex_shared_concatenate:
  "concatenate_store 3
     [\<lparr>obj_name = ''a'', obj_indices = [], obj_child = [1, 1]\<rparr>,
      \<lparr>obj_name = ''b'', obj_indices = [], obj_child = []\<rparr>,
      \<lparr>obj_name = ''c'', obj_indices = ([] :: unit list), obj_child = []\<rparr>] [0, 2]
   = Some (Inr ([\<lparr>obj_name = ''a'', obj_indices = [], obj_child = [1, 1]\<rparr>,
                 \<lparr>obj_name = ''b'', obj_indices = [], obj_child = []\<rparr>,
                 \<lparr>obj_name = ''c'', obj_indices = [], obj_child = []\<rparr>,
                 \<lparr>obj_name = ''a'', obj_indices = [], obj_child = [4, 4]\<rparr>,
                 \<lparr>obj_name = ''b'', obj_indices = [], obj_child = [5]\<rparr>,
                 \<lparr>obj_name = ''c'', obj_indices = [], obj_child = []\<rparr>], 3))"
  by (simp add: concatenate_store_def numeral_3_eq_3 Let_def)

text \<open>
  In the small store, concatenating \<^verbatim>\<open>a.b\<close> and \<^verbatim>\<open>c\<close> leaves the three objects
  as they were and returns a new object for \<^verbatim>\<open>a.b.c\<close>.
\<close>

theorem concatenate_store_copies_witness:
  "\<exists>h' r t. concatenate_store 3 ex_store [0, 2] = Some (Inr (h', r))
       \<and> take 3 h' = ex_store
       \<and> denotes_list h' [0, 2]
            [ComponentRef ''a'' [()] [ComponentRef ''b'' [] []], ComponentRef ''c'' [] []]
       \<and> denotes h' r t
       \<and> to_tuple t = [''a'', ''b'', ''c'']"
proof -
  have d: "denotes_list ex_store [0, 2]
            [ComponentRef ''a'' [()] [ComponentRef ''b'' [] []], ComponentRef ''c'' [] []]"
    by (simp add: ex_store_def)
  have u: "list_all2 (unshared ex_store) [0, 2]
            [ComponentRef ''a'' [()] [ComponentRef ''b'' [] []], ComponentRef ''c'' [] []]"
    by (simp add: ex_store_def)
  have f: "\<forall>t\<in>set [ComponentRef ''a'' [()] [ComponentRef ''b'' [] []], ComponentRef ''c'' [] []].
             cref_height t < 3"
    by simp
  have l: "length ex_store = 3" by (simp add: ex_store_def)
  from concatenate_store_copies [OF d u _ f] l show ?thesis
    by auto
qed
end
